theory Spec2Isabelle
  imports Main
begin

section \<open>The PL/0 lexer of src/pl0/lexer.c\<close>

text \<open>
  The theory embeds the scanner of \<^verbatim>\<open>src/pl0/lexer.c\<close>: the token type, the three
  globals \<^verbatim>\<open>line\<close>, \<^verbatim>\<open>source_buf\<close> and \<^verbatim>\<open>anchor\<close>, the functions
  \<^verbatim>\<open>comment\<close>, \<^verbatim>\<open>get_token\<close>, \<^verbatim>\<open>make_token\<close>, \<^verbatim>\<open>ident\<close>, \<^verbatim>\<open>number\<close>,
  \<^verbatim>\<open>lex\<close> and the driver \<^verbatim>\<open>parse\<close>.

  Conventions of the embedding.
  \<^item> The memory block that \<^verbatim>\<open>readfile\<close> allocates is a \<open>char list\<close>; \<^verbatim>\<open>anchor\<close> is that
    block and \<^verbatim>\<open>source_buf\<close> is the offset of the moving pointer from \<^verbatim>\<open>anchor\<close>.
  \<^item> Reading \<^verbatim>\<open>*source_buf\<close> is \<open>peek\<close>, which is \<open>None\<close> outside the block; every
    function turns such a read into the failure \<open>Out_of_bounds\<close>, so that memory safety
    is a property to be proved and not an assumption of the model.
  \<^item> \<^verbatim>\<open>die\<close> prints the current line and a message and calls \<^verbatim>\<open>exit(1)\<close>; it is the
    \<open>Inl\<close> branch of every result, carrying the state of the globals in which the
    process exits (the line printed is its \<open>line\<close>) and the failure.
  \<^item> \<^verbatim>\<open>line\<close> is a \<^verbatim>\<open>size_t\<close>; it is bounded by one plus the size of the block, which
    \<^verbatim>\<open>malloc\<close> bounds below the range of \<^verbatim>\<open>size_t\<close>, so it is a \<open>nat\<close> here.
  \<^item> \<^verbatim>\<open>malloc\<close> is taken to succeed.
  \<^item> A \<^verbatim>\<open>char *\<close> that is printed with \<^verbatim>\<open>%s\<close> or compared with \<^verbatim>\<open>strcmp\<close> denotes the
    bytes before the first NUL of the memory it points to: \<open>c_str\<close>.
\<close>

subsection \<open>Tokens\<close>

text \<open>
  The enum \<^verbatim>\<open>token_type\<close>; \<^verbatim>\<open>CONST\<close> and \<^verbatim>\<open>THEN\<close> are written \<open>CONST_T\<close> and
  \<open>THEN_T\<close> (the plain names are reserved).
\<close>

datatype token_type =
    IDENT | NUMBER | CONST_T | VAR | PROCEDURE | CALL | BEGIN | END | IF | THEN_T
  | WHILE | DO | ODD | ASSIGN | EQUAL | HASH | LT | GT | PLUS | MINUS
  | MULTIPLY | DIVIDE | LPAREN | RPAREN | DOT | COMMA | SEMICOLON

record token =
  "value" :: string
  type :: token_type

definition make_token :: "string \<Rightarrow> token_type \<Rightarrow> token" where
  "make_token v ty = \<lparr>value = v, type = ty\<rparr>"

definition c_str :: "string \<Rightarrow> string" where
  "c_str mem = takeWhile (\<lambda>c. c \<noteq> CHR 0x00) mem"

subsection \<open>The classification functions of ctype.h\<close>

text \<open>
  The program never calls \<^verbatim>\<open>setlocale\<close>, so the classification is that of the "C"
  locale over ASCII; a byte above 127 is in no class.
\<close>

definition isdigit :: "char \<Rightarrow> bool" where
  "isdigit c = (48 \<le> (of_char c :: nat) \<and> (of_char c :: nat) \<le> 57)"

definition isalpha :: "char \<Rightarrow> bool" where
  "isalpha c = ((65 \<le> (of_char c :: nat) \<and> (of_char c :: nat) \<le> 90) \<or>
                (97 \<le> (of_char c :: nat) \<and> (of_char c :: nat) \<le> 122))"

definition isalnum :: "char \<Rightarrow> bool" where
  "isalnum c = (isalpha c \<or> isdigit c)"

definition isspace :: "char \<Rightarrow> bool" where
  "isspace c = ((of_char c :: nat) = 32 \<or> (9 \<le> (of_char c :: nat) \<and> (of_char c :: nat) \<le> 13))"

subsection \<open>The scanner state\<close>

record scanner =
  anchor :: string
  source_buf :: nat
  line :: nat

datatype failure = Unterminated_comment | Invalid_number | Unknown_token char | Out_of_bounds

type_synonym 'a outcome = "(scanner \<times> failure) + 'a"

definition die :: "scanner \<Rightarrow> failure \<Rightarrow> 'a outcome" where
  "die s msg = Inl (s, msg)"

definition peek :: "scanner \<Rightarrow> char option" where
  "peek s = (if source_buf s < length (anchor s) then Some (anchor s ! source_buf s) else None)"

definition advance :: "scanner \<Rightarrow> scanner" where
  "advance s = s\<lparr>source_buf := source_buf s + 1\<rparr>"

definition newline :: "scanner \<Rightarrow> scanner" where
  "newline s = s\<lparr>line := line s + 1\<rparr>"

text \<open>
  \<^verbatim>\<open>readfile\<close> on a file it can read: the block holds the bytes of the file and a
  terminating NUL, both pointers are at its start, and \<^verbatim>\<open>line\<close> has its static
  initial value 1.
\<close>

definition readfile :: "string \<Rightarrow> scanner" where
  "readfile content = \<lparr>anchor = content @ [CHR 0x00], source_buf = 0, line = 1\<rparr>"

subsection \<open>comment\<close>

function comment :: "scanner \<Rightarrow> scanner outcome" where
  "comment s =
     (case peek s of
        None \<Rightarrow> die s Out_of_bounds
      | Some c \<Rightarrow>
          if c = CHR ''}'' then Inr (advance s)
          else if c = CHR 0x00 then die (advance s) Unterminated_comment
          else if c = CHR 0x0A then comment (newline (advance s))
          else comment (advance s))"
  by pat_completeness auto
termination
  by (relation "measure (\<lambda>s. length (anchor s) - source_buf s)")
     (auto simp: peek_def advance_def newline_def split: if_splits)

subsection \<open>get_token, ident and number\<close>

text \<open>
  \<^verbatim>\<open>get_token(startp, endp)\<close> copies the bytes from \<^verbatim>\<open>startp\<close> up to \<^verbatim>\<open>endp\<close> into a
  fresh block and adds a NUL; the result is the string that block denotes.
\<close>

definition get_token :: "string \<Rightarrow> nat \<Rightarrow> nat \<Rightarrow> string" where
  "get_token mem startp endp = c_str (take (endp - startp) (drop startp mem) @ [CHR 0x00])"

text \<open>\<open>ident_scan\<close> is the \<^verbatim>\<open>while\<close> loop of \<^verbatim>\<open>ident\<close>, \<open>number_scan\<close> that of \<^verbatim>\<open>number\<close>.\<close>

function ident_scan :: "scanner \<Rightarrow> scanner outcome" where
  "ident_scan s =
     (case peek s of
        None \<Rightarrow> die s Out_of_bounds
      | Some c \<Rightarrow> if isalnum c \<or> c = CHR ''_'' then ident_scan (advance s) else Inr s)"
  by pat_completeness auto
termination
  by (relation "measure (\<lambda>s. length (anchor s) - source_buf s)")
     (auto simp: peek_def advance_def split: if_splits)

definition ident :: "scanner \<Rightarrow> (token \<times> scanner) outcome" where
  "ident s =
     (case ident_scan s of
        Inl e \<Rightarrow> Inl e
      | Inr s' \<Rightarrow>
          let ident = get_token (anchor s') (source_buf s) (source_buf s');
              ty = (if ident = ''const'' then CONST_T
                    else if ident = ''var'' then VAR
                    else if ident = ''procedure'' then PROCEDURE
                    else if ident = ''call'' then CALL
                    else if ident = ''begin'' then BEGIN
                    else if ident = ''end'' then END
                    else if ident = ''if'' then IF
                    else if ident = ''then'' then THEN_T
                    else if ident = ''while'' then WHILE
                    else if ident = ''do'' then DO
                    else if ident = ''odd'' then ODD
                    else IDENT)
          in Inr (make_token ident ty, s'))"

text \<open>
  \<^verbatim>\<open>strtol(token, NULL, 10)\<close> on a string of decimal digits sets \<^verbatim>\<open>errno\<close> (to
  \<^verbatim>\<open>ERANGE\<close>) exactly when the number is above \<^verbatim>\<open>LONG_MAX\<close>; \<^verbatim>\<open>long\<close> has 64 bits
  (LP64). \<open>strtol_errno\<close> is whether \<^verbatim>\<open>errno\<close> is non-zero after the call.
\<close>

definition LONG_MAX :: int where
  "LONG_MAX = 2 ^ 63 - 1"

definition digit_val :: "char \<Rightarrow> int" where
  "digit_val c = int (of_char c) - 48"

definition decimal :: "string \<Rightarrow> int" where
  "decimal ds = foldl (\<lambda>acc c. 10 * acc + digit_val c) 0 ds"

definition strtol_errno :: "string \<Rightarrow> bool" where
  "strtol_errno tok = (LONG_MAX < decimal tok)"

function number_scan :: "scanner \<Rightarrow> scanner outcome" where
  "number_scan s =
     (case peek s of
        None \<Rightarrow> die s Out_of_bounds
      | Some c \<Rightarrow> if isdigit c then number_scan (advance s) else Inr s)"
  by pat_completeness auto
termination
  by (relation "measure (\<lambda>s. length (anchor s) - source_buf s)")
     (auto simp: peek_def advance_def split: if_splits)

definition number :: "scanner \<Rightarrow> (token \<times> scanner) outcome" where
  "number s =
     (case number_scan s of
        Inl e \<Rightarrow> Inl e
      | Inr s' \<Rightarrow>
          let token = get_token (anchor s') (source_buf s) (source_buf s')
          in if strtol_errno token then die s' Invalid_number
             else Inr (make_token token NUMBER, s'))"

subsection \<open>The white-space loop and the tail of lex\<close>

text \<open>The loop at the label \<^verbatim>\<open>start\<close>: skip white space, counting the newlines.\<close>

function skip_space :: "scanner \<Rightarrow> scanner outcome" where
  "skip_space s =
     (case peek s of
        None \<Rightarrow> die s Out_of_bounds
      | Some c \<Rightarrow>
          if isspace c
          then (if c = CHR 0x0A then skip_space (newline (advance s))
                else skip_space (advance s))
          else Inr s)"
  by pat_completeness auto
termination
  by (relation "measure (\<lambda>s. length (anchor s) - source_buf s)")
     (auto simp: peek_def advance_def newline_def split: if_splits)

text \<open>
  The statements after the \<^verbatim>\<open>switch\<close>: \<^verbatim>\<open>value[0] = *source_buf; value[1] = '\0'\<close>,
  read at the pointer as the \<^verbatim>\<open>case\<close> left it.
\<close>

definition lex_value :: "token_type \<Rightarrow> scanner \<Rightarrow> (token \<times> scanner) outcome" where
  "lex_value ty s =
     (case peek s of
        None \<Rightarrow> die s Out_of_bounds
      | Some c \<Rightarrow> Inr (make_token (c_str [c, CHR 0x00]) ty, s))"

declare comment.simps [simp del] ident_scan.simps [simp del]
  number_scan.simps [simp del] skip_space.simps [simp del]

subsection \<open>The loops in terms of the bytes ahead of the pointer\<close>

text \<open>
  \<open>rest s\<close> is the part of the block from the pointer on. Each loop is characterised by
  the longest prefix of \<open>rest s\<close> whose bytes keep it running.
\<close>

definition rest :: "scanner \<Rightarrow> string" where
  "rest s = drop (source_buf s) (anchor s)"

lemma peek_rest: "peek s = (case rest s of [] \<Rightarrow> None | c # _ \<Rightarrow> Some c)"
  by (auto simp: peek_def rest_def hd_drop_conv_nth split: list.splits
           dest: arg_cong[where f = hd])

lemma rest_advance [simp]: "rest (advance s) = tl (rest s)"
  by (simp add: rest_def advance_def tl_drop drop_Suc)

lemma rest_newline [simp]: "rest (newline s) = rest s"
  by (simp add: rest_def newline_def)

lemma length_rest: "length (rest s) = length (anchor s) - source_buf s"
  by (simp add: rest_def)

lemma skip_space_eq:
  "skip_space s =
     (if length (takeWhile isspace (rest s)) < length (rest s)
      then Inr (s\<lparr>source_buf := source_buf s + length (takeWhile isspace (rest s)),
                  line := line s + count_list (takeWhile isspace (rest s)) (CHR 0x0A)\<rparr>)
      else Inl (s\<lparr>source_buf := source_buf s + length (takeWhile isspace (rest s)),
                  line := line s + count_list (takeWhile isspace (rest s)) (CHR 0x0A)\<rparr>,
                Out_of_bounds))"
proof (induction "rest s" arbitrary: s)
  case Nil
  then have "peek s = None" by (simp add: peek_rest)
  with Nil[symmetric] show ?case by (simp add: skip_space.simps[of s] die_def)
next
  case (Cons c r)
  from Cons(2)[symmetric] have p: "peek s = Some c" and r: "rest s = c # r"
    by (simp_all add: peek_rest)
  have ra: "r = rest (advance s)" "r = rest (newline (advance s))" using r by simp_all
  show ?case
  proof (cases "isspace c")
    case False
    with p r show ?thesis by (simp add: skip_space.simps[of s])
  next
    case True
    show ?thesis
    proof (cases "c = CHR 0x0A")
      case True
      with p \<open>isspace c\<close> have "skip_space s = skip_space (newline (advance s))"
        by (simp add: skip_space.simps[of s])
      also note Cons(1)[OF ra(2), unfolded rest_newline rest_advance r list.sel]
      finally show ?thesis using r True \<open>isspace c\<close>
        by (simp add: advance_def newline_def)
    next
      case False
      with p \<open>isspace c\<close> have "skip_space s = skip_space (advance s)"
        by (simp add: skip_space.simps[of s])
      also note Cons(1)[OF ra(1), unfolded rest_newline rest_advance r list.sel]
      finally show ?thesis using r False \<open>isspace c\<close>
        by (simp add: advance_def newline_def)
    qed
  qed
qed


lemma ident_scan_eq:
  "ident_scan s =
     (if length (takeWhile (\<lambda>c. isalnum c \<or> c = CHR ''_'') (rest s)) < length (rest s)
      then Inr (s\<lparr>source_buf := source_buf s +
                  length (takeWhile (\<lambda>c. isalnum c \<or> c = CHR ''_'') (rest s))\<rparr>)
      else Inl (s\<lparr>source_buf := source_buf s +
                  length (takeWhile (\<lambda>c. isalnum c \<or> c = CHR ''_'') (rest s))\<rparr>,
                Out_of_bounds))"
proof (induction "rest s" arbitrary: s)
  case Nil
  then have "peek s = None" by (simp add: peek_rest)
  with Nil[symmetric] show ?case by (simp add: ident_scan.simps[of s] die_def)
next
  case (Cons c r)
  from Cons(2)[symmetric] have p: "peek s = Some c" and r: "rest s = c # r"
    by (simp_all add: peek_rest)
  have ra: "r = rest (advance s)" using r by simp
  show ?case
  proof (cases "isalnum c \<or> c = CHR ''_''")
    case False
    with p r show ?thesis by (simp add: ident_scan.simps[of s])
  next
    case True
    with p have "ident_scan s = ident_scan (advance s)"
      by (simp add: ident_scan.simps[of s])
    also note Cons(1)[OF ra, unfolded rest_advance r list.sel]
    finally show ?thesis using r True
      by (auto simp add: advance_def)
  qed
qed

lemma number_scan_eq:
  "number_scan s =
     (if length (takeWhile isdigit (rest s)) < length (rest s)
      then Inr (s\<lparr>source_buf := source_buf s + length (takeWhile isdigit (rest s))\<rparr>)
      else Inl (s\<lparr>source_buf := source_buf s + length (takeWhile isdigit (rest s))\<rparr>,
                Out_of_bounds))"
proof (induction "rest s" arbitrary: s)
  case Nil
  then have "peek s = None" by (simp add: peek_rest)
  with Nil[symmetric] show ?case by (simp add: number_scan.simps[of s] die_def)
next
  case (Cons c r)
  from Cons(2)[symmetric] have p: "peek s = Some c" and r: "rest s = c # r"
    by (simp_all add: peek_rest)
  have ra: "r = rest (advance s)" using r by simp
  show ?case
  proof (cases "isdigit c")
    case False
    with p r show ?thesis by (simp add: number_scan.simps[of s])
  next
    case True
    with p have "number_scan s = number_scan (advance s)"
      by (simp add: number_scan.simps[of s])
    also note Cons(1)[OF ra, unfolded rest_advance r list.sel]
    finally show ?thesis using r True
      by (simp add: advance_def)
  qed
qed

text \<open>The bytes \<^verbatim>\<open>comment\<close> steps over before it stops: neither \<^verbatim>\<open>}\<close> nor NUL.\<close>

definition in_comment :: "char \<Rightarrow> bool" where
  "in_comment c = (c \<noteq> CHR ''}'' \<and> c \<noteq> CHR 0x00)"

lemma comment_eq:
  "comment s =
     (if length (takeWhile in_comment (rest s)) < length (rest s)
      then (if rest s ! length (takeWhile in_comment (rest s)) = CHR ''}''
            then Inr (s\<lparr>source_buf := source_buf s + length (takeWhile in_comment (rest s)) + 1,
                        line := line s + count_list (takeWhile in_comment (rest s)) (CHR 0x0A)\<rparr>)
            else Inl (s\<lparr>source_buf := source_buf s + length (takeWhile in_comment (rest s)) + 1,
                        line := line s + count_list (takeWhile in_comment (rest s)) (CHR 0x0A)\<rparr>,
                      Unterminated_comment))
      else Inl (s\<lparr>source_buf := source_buf s + length (takeWhile in_comment (rest s)),
                  line := line s + count_list (takeWhile in_comment (rest s)) (CHR 0x0A)\<rparr>,
                Out_of_bounds))"
proof (induction "rest s" arbitrary: s)
  case Nil
  then have "peek s = None" by (simp add: peek_rest)
  with Nil[symmetric] show ?case by (simp add: comment.simps[of s] die_def)
next
  case (Cons c r)
  from Cons(2)[symmetric] have p: "peek s = Some c" and r: "rest s = c # r"
    by (simp_all add: peek_rest)
  have ra: "r = rest (advance s)" "r = rest (newline (advance s))" using r by simp_all
  show ?case
  proof (cases "in_comment c")
    case False
    with p r show ?thesis
      by (auto simp add: comment.simps[of s] in_comment_def advance_def die_def)
  next
    case True
    then have c: "c \<noteq> CHR ''}''" "c \<noteq> CHR 0x00" by (simp_all add: in_comment_def)
    show ?thesis
    proof (cases "c = CHR 0x0A")
      case True
      with p c have "comment s = comment (newline (advance s))"
        by (simp add: comment.simps[of s])
      also note Cons(1)[OF ra(2), unfolded rest_newline rest_advance r list.sel]
      finally show ?thesis using r True \<open>in_comment c\<close>
        by (simp add: advance_def newline_def)
    next
      case False
      with p c have "comment s = comment (advance s)"
        by (simp add: comment.simps[of s])
      also note Cons(1)[OF ra(1), unfolded rest_newline rest_advance r list.sel]
      finally show ?thesis using r False \<open>in_comment c\<close>
        by (simp add: advance_def newline_def)
    qed
  qed
qed


subsection \<open>What a piece of scanning does to the state\<close>

definition consumed :: "scanner \<Rightarrow> scanner \<Rightarrow> string" where
  "consumed s s' = take (source_buf s' - source_buf s) (rest s)"

definition scans :: "scanner \<Rightarrow> scanner \<Rightarrow> bool" where
  "scans s s' =
     (anchor s' = anchor s \<and> source_buf s \<le> source_buf s' \<and>
      source_buf s' \<le> length (anchor s) \<and>
      CHR 0x00 \<notin> set (consumed s s') \<and>
      line s' = line s + count_list (consumed s s') (CHR 0x0A))"

lemma take_drop_split:
  assumes "a \<le> b" "b \<le> (c::nat)"
  shows "take (c - a) (drop a xs) = take (b - a) (drop a xs) @ take (c - b) (drop b xs)"
proof -
  have "take (c - a) (drop a xs) = take ((b - a) + (c - b)) (drop a xs)"
    using assms by simp
  also have "\<dots> = take (b - a) (drop a xs) @ take (c - b) (drop (b - a) (drop a xs))"
    by (rule take_add)
  also have "drop (b - a) (drop a xs) = drop b xs"
    using assms by simp
  finally show ?thesis .
qed

lemma drop_split:
  assumes "a \<le> (b::nat)"
  shows "drop a xs = take (b - a) (drop a xs) @ drop b xs"
proof -
  have "drop a xs = take (b - a) (drop a xs) @ drop (b - a) (drop a xs)"
    by (rule append_take_drop_id[symmetric])
  also have "drop (b - a) (drop a xs) = drop b xs"
    using assms by simp
  finally show ?thesis .
qed

lemma consumed_append:
  assumes "anchor s1 = anchor s" "source_buf s \<le> source_buf s1" "source_buf s1 \<le> source_buf s2"
  shows "consumed s s2 = consumed s s1 @ consumed s1 s2"
  using assms take_drop_split[of "source_buf s" "source_buf s1" "source_buf s2" "anchor s"]
  by (simp add: consumed_def rest_def)

lemma scans_refl: "source_buf s \<le> length (anchor s) \<Longrightarrow> scans s s"
  by (simp add: scans_def consumed_def)

lemma scans_trans:
  assumes "scans s s1" "scans s1 s2"
  shows "scans s s2"
proof -
  from assms have a: "anchor s1 = anchor s" "source_buf s \<le> source_buf s1"
    "source_buf s1 \<le> source_buf s2"
    by (simp_all add: scans_def)
  have "consumed s s2 = consumed s s1 @ consumed s1 s2"
    by (rule consumed_append[OF a])
  with assms show ?thesis
    by (simp add: scans_def)
qed

lemma rest_split:
  "anchor s' = anchor s \<Longrightarrow> source_buf s \<le> source_buf s' \<Longrightarrow> rest s = consumed s s' @ rest s'"
  using drop_split[of "source_buf s" "source_buf s'" "anchor s"]
  by (simp add: consumed_def rest_def)

lemma consumed_prefix:
  assumes "s' = s\<lparr>source_buf := source_buf s + n, line := l\<rparr>"
  shows "consumed s s' = take n (rest s)"
  using assms by (simp add: consumed_def)

lemma takeWhile_short:
  "x \<in> set xs \<Longrightarrow> \<not> P x \<Longrightarrow> length (takeWhile P xs) < length xs"
  by (induction xs) auto

lemma take_takeWhile_id: "take (length (takeWhile P xs)) xs = takeWhile P xs"
  by (simp add: takeWhile_eq_take[symmetric])


lemma not_isspace_NUL [simp]: "\<not> isspace (CHR 0x00)"
  by (simp add: isspace_def)

lemma not_isalnum_NUL [simp]: "\<not> isalnum (CHR 0x00)" "\<not> isdigit (CHR 0x00)" "\<not> isalpha (CHR 0x00)"
  by (simp_all add: isalnum_def isalpha_def isdigit_def)

lemma not_isalnum_newline [simp]: "\<not> isalnum (CHR 0x0A)" "\<not> isdigit (CHR 0x0A)"
  by (simp_all add: isalnum_def isalpha_def isdigit_def)

lemma takeWhile_avoids: "\<not> P x \<Longrightarrow> x \<notin> set (takeWhile P xs)"
  by (auto dest: set_takeWhileD)

lemma count_list_0: "x \<notin> set xs \<Longrightarrow> count_list xs x = 0"
  by (simp add: count_list_0_iff)

lemma skip_space_scans:
  assumes "skip_space s = Inr s'"
  shows "scans s s'"
proof -
  let ?ws = "takeWhile isspace (rest s)"
  from assms have n: "length ?ws < length (rest s)"
    and s': "s' = s\<lparr>source_buf := source_buf s + length ?ws,
                      line := line s + count_list ?ws (CHR 0x0A)\<rparr>"
    by (simp_all add: skip_space_eq split: if_splits)
  have c: "consumed s s' = ?ws"
    by (simp add: consumed_prefix[OF s'] take_takeWhile_id)
  have "CHR 0x00 \<notin> set ?ws" by (rule takeWhile_avoids) simp
  with n c show ?thesis
    by (simp add: scans_def s' length_rest)
qed

lemma ident_scan_scans:
  assumes "ident_scan s = Inr s'"
  shows "scans s s'"
proof -
  let ?P = "\<lambda>c. isalnum c \<or> c = CHR ''_''"
  let ?ws = "takeWhile ?P (rest s)"
  from assms have n: "length ?ws < length (rest s)"
    and s': "s' = s\<lparr>source_buf := source_buf s + length ?ws, line := line s\<rparr>"
    by (simp_all add: ident_scan_eq split: if_splits)
  have c: "consumed s s' = ?ws"
    by (simp add: consumed_prefix[OF s'] take_takeWhile_id)
  have "CHR 0x00 \<notin> set ?ws" by (rule takeWhile_avoids) simp
  moreover have "CHR 0x0A \<notin> set ?ws" by (rule takeWhile_avoids) simp
  ultimately show ?thesis using n c
    by (simp add: scans_def s' length_rest count_list_0)
qed

lemma number_scan_scans:
  assumes "number_scan s = Inr s'"
  shows "scans s s'"
proof -
  let ?ws = "takeWhile isdigit (rest s)"
  from assms have n: "length ?ws < length (rest s)"
    and s': "s' = s\<lparr>source_buf := source_buf s + length ?ws, line := line s\<rparr>"
    by (simp_all add: number_scan_eq split: if_splits)
  have c: "consumed s s' = ?ws"
    by (simp add: consumed_prefix[OF s'] take_takeWhile_id)
  have "CHR 0x00 \<notin> set ?ws" by (rule takeWhile_avoids) simp
  moreover have "CHR 0x0A \<notin> set ?ws" by (rule takeWhile_avoids) simp
  ultimately show ?thesis using n c
    by (simp add: scans_def s' length_rest count_list_0)
qed

lemma take_Suc_takeWhile:
  "length (takeWhile P xs) < length xs \<Longrightarrow>
     take (Suc (length (takeWhile P xs))) xs = takeWhile P xs @ [xs ! length (takeWhile P xs)]"
  by (simp add: take_Suc_conv_app_nth take_takeWhile_id)

lemma comment_scans:
  assumes "comment s = Inr s'"
  shows "scans s s' \<and> source_buf s < source_buf s'"
proof -
  let ?ws = "takeWhile in_comment (rest s)"
  from assms have n: "length ?ws < length (rest s)"
    and e: "rest s ! length ?ws = CHR ''}''"
    and s': "s' = s\<lparr>source_buf := source_buf s + Suc (length ?ws),
                      line := line s + count_list ?ws (CHR 0x0A)\<rparr>"
    by (simp_all add: comment_eq split: if_splits)
  have c: "consumed s s' = ?ws @ [CHR ''}'']"
    using take_Suc_takeWhile[OF n] e by (simp add: consumed_prefix[OF s'])
  have "CHR 0x00 \<notin> set ?ws" by (rule takeWhile_avoids) (simp add: in_comment_def)
  with n c show ?thesis
    by (simp add: scans_def s' length_rest)
qed


subsection \<open>lex\<close>

function lex :: "scanner \<Rightarrow> (token \<times> scanner) outcome" where
  "lex s =
     (case skip_space s of
        Inl e \<Rightarrow> Inl e
      | Inr s1 \<Rightarrow>
          (case peek s1 of
             None \<Rightarrow> die s1 Out_of_bounds
           | Some c \<Rightarrow>
               if isalpha c \<or> c = CHR ''_'' then ident s1
               else if isdigit c then number s1
               else if c = CHR ''='' then lex_value ASSIGN (advance s1)
               else if c = CHR ''#'' then lex_value HASH (advance s1)
               else if c = CHR ''<'' then lex_value LT (advance s1)
               else if c = CHR ''>'' then lex_value GT (advance s1)
               else if c = CHR ''+'' then lex_value PLUS (advance s1)
               else if c = CHR ''-'' then lex_value MINUS (advance s1)
               else if c = CHR ''*'' then lex_value MULTIPLY (advance s1)
               else if c = CHR ''/'' then lex_value DIVIDE (advance s1)
               else if c = CHR ''('' then lex_value LPAREN (advance s1)
               else if c = CHR '')'' then lex_value RPAREN (advance s1)
               else if c = CHR ''.'' then lex_value DOT (advance s1)
               else if c = CHR '','' then lex_value COMMA (advance s1)
               else if c = CHR '';'' then lex_value SEMICOLON (advance s1)
               else if c = CHR '':'' then
                 (case peek (advance s1) of
                    None \<Rightarrow> die (advance s1) Out_of_bounds
                  | Some d \<Rightarrow>
                      if d \<noteq> CHR ''='' then die (advance s1) (Unknown_token d)
                      else Inr (make_token (c_str [CHR '':'', CHR ''='', CHR 0x00, CHR 0x00]) ASSIGN,
                                advance (advance s1)))
               else if c = CHR ''{'' then
                 (case comment s1 of Inl e \<Rightarrow> Inl e | Inr s2 \<Rightarrow> lex s2)
               else if c = CHR 0x00 then lex_value DOT s1
               else die s1 (Unknown_token c)))"
  by pat_completeness auto
termination
proof (relation "measure (\<lambda>s. length (anchor s) - source_buf s)")
  show "wf (measure (\<lambda>s. length (anchor s) - source_buf s))" by simp
next
  fix s s1 c s2
  assume a: "skip_space s = Inr s1" and c: "comment s1 = Inr s2"
  from skip_space_scans[OF a] comment_scans[OF c]
  have "source_buf s < source_buf s2" "source_buf s2 \<le> length (anchor s)" "anchor s2 = anchor s"
    by (simp_all add: scans_def)
  then show "(s2, s) \<in> measure (\<lambda>s. length (anchor s) - source_buf s)"
    by simp
qed

declare lex.simps [simp del]

text \<open>
  The thirteen cases of the \<^verbatim>\<open>switch\<close> that set \<^verbatim>\<open>type\<close>, step over one byte and
  \<^verbatim>\<open>break\<close>, as a table from the byte to the type the code assigns.
\<close>

definition single :: "char \<Rightarrow> token_type option" where
  "single c =
     (if c = CHR ''='' then Some ASSIGN
      else if c = CHR ''#'' then Some HASH
      else if c = CHR ''<'' then Some LT
      else if c = CHR ''>'' then Some GT
      else if c = CHR ''+'' then Some PLUS
      else if c = CHR ''-'' then Some MINUS
      else if c = CHR ''*'' then Some MULTIPLY
      else if c = CHR ''/'' then Some DIVIDE
      else if c = CHR ''('' then Some LPAREN
      else if c = CHR '')'' then Some RPAREN
      else if c = CHR ''.'' then Some DOT
      else if c = CHR '','' then Some COMMA
      else if c = CHR '';'' then Some SEMICOLON
      else None)"

lemma lex_unfold:
  "lex s =
     (case skip_space s of
        Inl e \<Rightarrow> Inl e
      | Inr s1 \<Rightarrow>
          (case peek s1 of
             None \<Rightarrow> die s1 Out_of_bounds
           | Some c \<Rightarrow>
               if isalpha c \<or> c = CHR ''_'' then ident s1
               else if isdigit c then number s1
               else (case single c of
                       Some ty \<Rightarrow> lex_value ty (advance s1)
                     | None \<Rightarrow>
                         if c = CHR '':'' then
                           (case peek (advance s1) of
                              None \<Rightarrow> die (advance s1) Out_of_bounds
                            | Some d \<Rightarrow>
                                if d \<noteq> CHR ''='' then die (advance s1) (Unknown_token d)
                                else Inr (make_token '':='' ASSIGN, advance (advance s1)))
                         else if c = CHR ''{'' then
                           (case comment s1 of Inl e \<Rightarrow> Inl e | Inr s2 \<Rightarrow> lex s2)
                         else if c = CHR 0x00 then lex_value DOT s1
                         else die s1 (Unknown_token c))))"
  by (subst lex.simps) (simp add: single_def c_str_def split: sum.splits option.splits)

lemma single_class:
  assumes "single c = Some ty"
  shows "\<not> isalpha c" "c \<noteq> CHR ''_''" "\<not> isdigit c" "\<not> isspace c"
    "c \<noteq> CHR 0x00" "c \<noteq> CHR 0x0A" "c \<noteq> CHR '':''" "c \<noteq> CHR ''{''"
  using assms
  by (auto simp: single_def isalpha_def isdigit_def isspace_def split: if_splits)

lemma lex_ident_case:
  "skip_space s = Inr s1 \<Longrightarrow> peek s1 = Some c \<Longrightarrow> isalpha c \<or> c = CHR ''_'' \<Longrightarrow> lex s = ident s1"
  by (simp add: lex_unfold)

lemma lex_number_case:
  "skip_space s = Inr s1 \<Longrightarrow> peek s1 = Some c \<Longrightarrow> isdigit c \<Longrightarrow> lex s = number s1"
  by (auto simp add: lex_unfold isalpha_def isdigit_def)

lemma lex_single_case:
  "skip_space s = Inr s1 \<Longrightarrow> peek s1 = Some c \<Longrightarrow> single c = Some ty \<Longrightarrow>
     lex s = lex_value ty (advance s1)"
  by (simp add: lex_unfold single_class)

lemma lex_colon_case:
  "skip_space s = Inr s1 \<Longrightarrow> peek s1 = Some (CHR '':'') \<Longrightarrow>
     lex s = (case peek (advance s1) of
                None \<Rightarrow> die (advance s1) Out_of_bounds
              | Some d \<Rightarrow>
                  if d \<noteq> CHR ''='' then die (advance s1) (Unknown_token d)
                  else Inr (make_token '':='' ASSIGN, advance (advance s1)))"
  by (simp add: lex_unfold single_def isalpha_def isdigit_def)

lemma lex_comment_case:
  "skip_space s = Inr s1 \<Longrightarrow> peek s1 = Some (CHR ''{'') \<Longrightarrow>
     lex s = (case comment s1 of Inl e \<Rightarrow> Inl e | Inr s2 \<Rightarrow> lex s2)"
  by (simp add: lex_unfold single_def isalpha_def isdigit_def)

lemma lex_eof_case:
  "skip_space s = Inr s1 \<Longrightarrow> peek s1 = Some (CHR 0x00) \<Longrightarrow> lex s = lex_value DOT s1"
  by (simp add: lex_unfold single_def)

lemma lex_unknown_case:
  "skip_space s = Inr s1 \<Longrightarrow> peek s1 = Some c \<Longrightarrow> \<not> isalpha c \<Longrightarrow> c \<noteq> CHR ''_'' \<Longrightarrow>
   \<not> isdigit c \<Longrightarrow> single c = None \<Longrightarrow> c \<noteq> CHR '':'' \<Longrightarrow> c \<noteq> CHR ''{'' \<Longrightarrow>
   c \<noteq> CHR 0x00 \<Longrightarrow> lex s = die s1 (Unknown_token c)"
  by (simp add: lex_unfold)


lemma peek_Some_rest: "peek s = Some c \<Longrightarrow> \<exists>r. rest s = c # r"
  by (auto simp: peek_rest split: list.splits)

lemma peek_in_range: "peek s = Some c \<Longrightarrow> source_buf s < length (anchor s)"
  by (simp add: peek_def split: if_splits)

lemma advance_scans:
  assumes "peek s = Some c" "c \<noteq> CHR 0x00" "c \<noteq> CHR 0x0A"
  shows "scans s (advance s)"
proof -
  from assms(1) obtain r where "rest s = c # r" using peek_Some_rest by blast
  then have "consumed s (advance s) = [c]"
    by (simp add: consumed_def advance_def)
  with assms peek_in_range[OF assms(1)] show ?thesis
    by (simp add: scans_def advance_def)
qed

lemma advance_source_buf [simp]: "source_buf (advance s) = Suc (source_buf s)"
  by (simp add: advance_def)

lemma lex_value_Inr:
  "lex_value ty s = Inr (t, s') \<Longrightarrow> s' = s \<and> type t = ty \<and> source_buf s < length (anchor s)"
  by (auto simp: lex_value_def die_def make_token_def peek_def split: option.splits if_splits)

lemma ident_Inr:
  assumes "ident s = Inr (t, s')"
  shows "ident_scan s = Inr s'"
    and "value t = get_token (anchor s') (source_buf s) (source_buf s')"
  using assms by (auto simp: ident_def Let_def make_token_def split: sum.splits)

lemma number_Inr:
  assumes "number s = Inr (t, s')"
  shows "number_scan s = Inr s'" and "type t = NUMBER"
  using assms by (auto simp: number_def Let_def make_token_def die_def split: sum.splits if_splits)

lemma ident_scan_advances:
  assumes "ident_scan s = Inr s'" "peek s = Some c" "isalpha c \<or> c = CHR ''_''"
  shows "source_buf s < source_buf s'"
proof -
  from assms(2) obtain r where "rest s = c # r" using peek_Some_rest by blast
  with assms(1,3) show ?thesis
    by (auto simp: ident_scan_eq isalnum_def split: if_splits)
qed

lemma number_scan_advances:
  assumes "number_scan s = Inr s'" "peek s = Some c" "isdigit c"
  shows "source_buf s < source_buf s'"
proof -
  from assms(2) obtain r where "rest s = c # r" using peek_Some_rest by blast
  with assms(1,3) show ?thesis
    by (auto simp: number_scan_eq split: if_splits)
qed

text \<open>
  The dispatch of \<open>lex\<close> after the white space: exactly one of seven cases applies to
  the byte under the pointer.
\<close>

lemma byte_cases:
  obtains (ident) "isalpha c \<or> c = CHR ''_''"
  | (number) "isdigit c"
  | (single) ty where "single c = Some ty"
  | (colon) "c = CHR '':''"
  | (comment) "c = CHR ''{''"
  | (eof) "c = CHR 0x00"
  | (unknown) "\<not> isalpha c" "c \<noteq> CHR ''_''" "\<not> isdigit c" "single c = None"
      "c \<noteq> CHR '':''" "c \<noteq> CHR ''{''" "c \<noteq> CHR 0x00"
  by (cases "single c") auto

lemma lex_Inr_skip:
  assumes "lex s = Inr r"
  obtains s1 c where "skip_space s = Inr s1" "peek s1 = Some c"
  using assms
  by (subst (asm) lex_unfold) (auto simp: die_def split: sum.splits option.splits)

lemma scans_le: "scans s s' \<Longrightarrow> source_buf s \<le> source_buf s'"
  by (simp add: scans_def)

lemma lex_scans:
  "lex s = Inr (t, s') \<Longrightarrow> scans s s' \<and> (type t \<noteq> DOT \<longrightarrow> source_buf s < source_buf s')"
proof (induction s rule: lex.induct)
  case (1 s)
  from "1.prems" obtain s1 c where sk: "skip_space s = Inr s1" and p: "peek s1 = Some c"
    by (rule lex_Inr_skip)
  note a = skip_space_scans[OF sk]
  have key: "scans s1 s' \<and> (type t \<noteq> DOT \<longrightarrow> source_buf s1 < source_buf s')"
  proof (cases c rule: byte_cases)
    case ident
    with "1.prems" sk p have i: "ident s1 = Inr (t, s')" by (simp add: lex_ident_case)
    from ident_Inr(1)[OF i] ident_scan_scans ident_scan_advances[OF _ p ident]
    show ?thesis by blast
  next
    case number
    with "1.prems" sk p have i: "number s1 = Inr (t, s')" by (simp add: lex_number_case)
    from number_Inr(1)[OF i] number_scan_scans number_scan_advances[OF _ p number]
    show ?thesis by blast
  next
    case (single ty)
    with "1.prems" sk p have "lex_value ty (advance s1) = Inr (t, s')"
      by (simp add: lex_single_case)
    from lex_value_Inr[OF this] advance_scans[OF p single_class(5,6)[OF single]]
    show ?thesis by simp
  next
    case colon
    with "1.prems" sk p obtain d where d: "peek (advance s1) = Some d" "d = CHR ''=''"
      and s': "s' = advance (advance s1)"
      by (auto simp: lex_colon_case die_def split: option.splits if_splits)
    from p colon have "scans s1 (advance s1)"
      using advance_scans[of s1 "CHR '':''"] by simp
    moreover from d have "scans (advance s1) (advance (advance s1))"
      using advance_scans[of "advance s1" "CHR ''=''"] by simp
    ultimately have "scans s1 s'" unfolding s' by (rule scans_trans)
    then show ?thesis by (simp add: s')
  next
    case comment
    with "1.prems" sk p obtain s2 where c: "comment s1 = Inr s2" and l: "lex s2 = Inr (t, s')"
      by (auto simp: lex_comment_case split: sum.splits)
    from comment have "\<not> (isalpha c \<or> c = CHR ''_'')" "\<not> isdigit c"
      by (simp_all add: isalpha_def isdigit_def)
    from "1.IH"[OF sk p this _ _ _ _ _ _ _ _ _ _ _ _ _ _ comment c l] comment
    have "scans s2 s' \<and> (type t \<noteq> DOT \<longrightarrow> source_buf s2 < source_buf s')" by simp
    moreover from this comment_scans[OF c] have "scans s1 s'" by (blast intro: scans_trans)
    ultimately show ?thesis using comment_scans[OF c] scans_le[of s2 s'] by simp
  next
    case eof
    with "1.prems" sk p have "lex_value DOT s1 = Inr (t, s')" by (simp add: lex_eof_case)
    from lex_value_Inr[OF this] show ?thesis by (simp add: scans_refl)
  next
    case unknown
    with "1.prems" sk p show ?thesis by (simp add: lex_unknown_case die_def)
  qed
  then have "scans s s'" using a by (blast intro: scans_trans)
  with key show ?case using scans_le[OF a] by auto
qed


subsection \<open>parse and main\<close>

text \<open>
  The driver; \<open>parse_loop\<close> is its \<^verbatim>\<open>while\<close> loop, with the token \<^verbatim>\<open>t\<close> of the last
  round. What \<^verbatim>\<open>printf\<close> writes for a token is kept as the pair of the line
  number printed and the token; \<^verbatim>\<open>token t = {0}\<close> is a token of type \<^verbatim>\<open>IDENT\<close> (the
  enumerator 0) whose \<^verbatim>\<open>value\<close> is never read. A fatal error ends the run with what was
  printed before it.
\<close>

function parse_loop ::
  "token \<Rightarrow> scanner \<Rightarrow> (nat \<times> token) list \<Rightarrow>
     ((scanner \<times> failure) \<times> (nat \<times> token) list) + (scanner \<times> (nat \<times> token) list)" where
  "parse_loop t s out =
     (if type t \<noteq> DOT
      then (case lex s of
              Inl e \<Rightarrow> Inl (e, out)
            | Inr (t', s') \<Rightarrow> parse_loop t' s' (out @ [(line s', t')]))
      else Inr (s, out))"
  by pat_completeness auto
termination
proof (relation "measure (\<lambda>(t, s, out). if type t = DOT then 0
                                        else Suc (length (anchor s) - source_buf s))")
  show "wf (measure (\<lambda>(t, s, out). if type t = DOT then 0
                                        else Suc (length (anchor s) - source_buf s)))"
    by simp
next
  fix t :: token and s :: scanner and out :: "(nat \<times> token) list" and x t' s'
  assume t: "type t \<noteq> DOT" and l: "lex s = Inr x" and x: "(t', s') = x"
  from l x have "lex s = Inr (t', s')" by simp
  from lex_scans[OF this]
  have "anchor s' = anchor s" "source_buf s' \<le> length (anchor s)"
    "type t' \<noteq> DOT \<longrightarrow> source_buf s < source_buf s'"
    by (simp_all add: scans_def)
  with t show "((t', s', out @ [(line s', t')]), (t, s, out))
      \<in> measure (\<lambda>(t, s, out). if type t = DOT then 0 else Suc (length (anchor s) - source_buf s))"
    by auto
qed

declare parse_loop.simps [simp del]

definition parse ::
  "scanner \<Rightarrow>
     ((scanner \<times> failure) \<times> (nat \<times> token) list) + (scanner \<times> (nat \<times> token) list)" where
  "parse s = parse_loop \<lparr>value = [], type = IDENT\<rparr> s []"

text \<open>
  The exit status of \<^verbatim>\<open>main\<close> on a file it could read: \<^verbatim>\<open>die\<close> exits with 1, and
  \<^verbatim>\<open>main\<close> returns 0 after \<^verbatim>\<open>parse\<close>.
\<close>

definition main :: "string \<Rightarrow> nat" where
  "main content = (case parse (readfile content) of Inl _ \<Rightarrow> 1 | Inr _ \<Rightarrow> 0)"

subsection \<open>Scanning inside a NUL-terminated block\<close>

text \<open>
  The input contract: a NUL lies at or after the pointer. The first such NUL is the
  terminating null the scanner sees.
\<close>

definition terminated :: "scanner \<Rightarrow> bool" where
  "terminated s = (CHR 0x00 \<in> set (rest s))"

lemma terminated_readfile: "terminated (readfile content)"
  by (simp add: terminated_def rest_def readfile_def)

lemma terminated_takeWhile:
  "terminated s \<Longrightarrow> \<not> P (CHR 0x00) \<Longrightarrow> length (takeWhile P (rest s)) < length (rest s)"
  unfolding terminated_def by (rule takeWhile_short)

lemma terminated_peek: "terminated s \<Longrightarrow> \<exists>c. peek s = Some c"
  by (cases "rest s") (auto simp: terminated_def peek_rest)

lemma scans_terminated:
  assumes "scans s s'" "terminated s"
  shows "terminated s'"
proof -
  from assms(1) have a: "anchor s' = anchor s" "source_buf s \<le> source_buf s'"
    and n: "CHR 0x00 \<notin> set (consumed s s')"
    by (simp_all add: scans_def)
  note eq = rest_split[OF a]
  from assms(2) have "CHR 0x00 \<in> set (consumed s s') \<union> set (rest s')"
    unfolding terminated_def by (subst (asm) eq) simp
  with n show ?thesis
    unfolding terminated_def by blast
qed

lemma advance_terminated:
  assumes "terminated s" "peek s = Some c" "c \<noteq> CHR 0x00"
  shows "terminated (advance s)"
proof -
  from assms(2) obtain r where "rest s = c # r" using peek_Some_rest by blast
  with assms(1,3) show ?thesis by (simp add: terminated_def)
qed

lemma skip_space_terminated:
  assumes "terminated s"
  shows "skip_space s =
           Inr (s\<lparr>source_buf := source_buf s + length (takeWhile isspace (rest s)),
                   line := line s + count_list (takeWhile isspace (rest s)) (CHR 0x0A)\<rparr>)"
  using terminated_takeWhile[OF assms, of isspace] by (simp add: skip_space_eq)

lemma ident_scan_terminated:
  assumes "terminated s"
  shows "ident_scan s =
           Inr (s\<lparr>source_buf := source_buf s +
                   length (takeWhile (\<lambda>c. isalnum c \<or> c = CHR ''_'') (rest s))\<rparr>)"
  using terminated_takeWhile[OF assms, of "\<lambda>c. isalnum c \<or> c = CHR ''_''"]
  by (simp add: ident_scan_eq)

lemma number_scan_terminated:
  assumes "terminated s"
  shows "number_scan s =
           Inr (s\<lparr>source_buf := source_buf s + length (takeWhile isdigit (rest s))\<rparr>)"
  using terminated_takeWhile[OF assms, of isdigit] by (simp add: number_scan_eq)

lemma comment_terminated:
  assumes "terminated s"
  shows "comment s =
           (if rest s ! length (takeWhile in_comment (rest s)) = CHR ''}''
            then Inr (s\<lparr>source_buf := source_buf s + length (takeWhile in_comment (rest s)) + 1,
                        line := line s + count_list (takeWhile in_comment (rest s)) (CHR 0x0A)\<rparr>)
            else Inl (s\<lparr>source_buf := source_buf s + length (takeWhile in_comment (rest s)) + 1,
                        line := line s + count_list (takeWhile in_comment (rest s)) (CHR 0x0A)\<rparr>,
                      Unterminated_comment))"
  using terminated_takeWhile[OF assms, of in_comment]
  by (simp add: comment_eq in_comment_def)

lemma comment_Inl: "terminated s \<Longrightarrow> comment s = Inl e \<Longrightarrow> e \<noteq> (l, Out_of_bounds)"
  by (auto simp add: comment_terminated split: if_splits)

lemma ident_not_oob: "terminated s \<Longrightarrow> \<exists>t s'. ident s = Inr (t, s')"
  by (simp add: ident_def ident_scan_terminated Let_def split del: if_split)

lemma number_not_oob: "terminated s \<Longrightarrow> number s \<noteq> Inl (l, Out_of_bounds)"
  by (simp add: number_def number_scan_terminated Let_def die_def)

lemma lex_value_terminated:
  "terminated s \<Longrightarrow> \<exists>t. lex_value ty s = Inr (t, s)"
  using terminated_peek[of s] by (auto simp: lex_value_def)

lemma lex_safe: "terminated s \<Longrightarrow> lex s \<noteq> Inl (l, Out_of_bounds)"
proof (induction s rule: lex.induct)
  case (1 s)
  from skip_space_terminated[OF "1.prems"] obtain s1 where sk: "skip_space s = Inr s1"
    by blast
  have t1: "terminated s1"
    by (rule scans_terminated[OF skip_space_scans[OF sk] "1.prems"])
  from terminated_peek[OF t1] obtain c where p: "peek s1 = Some c" by blast
  show ?case
  proof (cases c rule: byte_cases)
    case ident
    from ident_not_oob[OF t1] show ?thesis
      unfolding lex_ident_case[OF sk p ident] by auto
  next
    case number
    from number_not_oob[OF t1] show ?thesis
      unfolding lex_number_case[OF sk p number] .
  next
    case (single ty)
    from advance_terminated[OF t1 p single_class(5)[OF single]]
    have "\<exists>t. lex_value ty (advance s1) = Inr (t, advance s1)" by (rule lex_value_terminated)
    then show ?thesis
      unfolding lex_single_case[OF sk p single] by auto
  next
    case colon
    with t1 p have "terminated (advance s1)" by (auto intro: advance_terminated)
    from terminated_peek[OF this] show ?thesis
      unfolding lex_colon_case[OF sk p[unfolded colon]]
      by (auto simp: die_def split: if_splits)
  next
    case comment
    from comment have n: "\<not> (isalpha c \<or> c = CHR ''_'')" "\<not> isdigit c"
      by (simp_all add: isalpha_def isdigit_def)
    note eq = lex_comment_case[OF sk p[unfolded comment]]
    show ?thesis
    proof (cases "comment s1")
      case (Inl e)
      from comment_Inl[OF t1 Inl] show ?thesis
        unfolding eq Inl by simp
    next
      case (Inr s2)
      from comment_scans[OF Inr] t1 have "terminated s2" by (blast intro: scans_terminated)
      from "1.IH"[OF sk p n _ _ _ _ _ _ _ _ _ _ _ _ _ _ comment Inr this] comment
      have "lex s2 \<noteq> Inl (l, Out_of_bounds)" by simp
      then show ?thesis unfolding eq Inr by simp
    qed
  next
    case eof
    from lex_value_terminated[OF t1, of DOT] show ?thesis
      unfolding lex_eof_case[OF sk p[unfolded eof]] by auto
  next
    case unknown
    show ?thesis
      unfolding lex_unknown_case[OF sk p unknown] by (simp add: die_def)
  qed
qed

subsection \<open>The first dot outside a comment\<close>

text \<open>
  The offset of the first \<^verbatim>\<open>.\<close> of a text that lies outside every comment, where a comment
  runs from a \<^verbatim>\<open>{\<close> outside a comment to the first \<^verbatim>\<open>}\<close> behind it. The flag tells
  whether the text starts inside a comment.
\<close>

fun dot_outside :: "bool \<Rightarrow> string \<Rightarrow> nat option" where
  "dot_outside inside [] = None"
| "dot_outside True (c # cs) =
     (if c = CHR ''}'' then map_option Suc (dot_outside False cs)
      else map_option Suc (dot_outside True cs))"
| "dot_outside False (c # cs) =
     (if c = CHR ''.'' then Some 0
      else if c = CHR ''{'' then map_option Suc (dot_outside True cs)
      else map_option Suc (dot_outside False cs))"

text \<open>
  A stretch of text is neutral when it holds no dot outside a comment and ends outside a
  comment: the search for the first dot passes over it.
\<close>

definition neutral :: "string \<Rightarrow> bool" where
  "neutral xs =
     (\<forall>ys. dot_outside False (xs @ ys) = map_option (\<lambda>k. length xs + k) (dot_outside False ys))"

lemma neutral_Nil: "neutral []"
  by (simp add: neutral_def option.map_ident)

lemma neutral_append:
  assumes "neutral xs" "neutral ys"
  shows "neutral (xs @ ys)"
  using assms by (simp add: neutral_def option.map_comp comp_def add.assoc)

lemma neutral_plain:
  "\<forall>c\<in>set xs. c \<noteq> CHR ''.'' \<and> c \<noteq> CHR ''{'' \<Longrightarrow> neutral xs"
proof (induction xs)
  case Nil
  show ?case by (rule neutral_Nil)
next
  case (Cons x xs)
  then have "neutral xs" by simp
  with Cons.prems show ?case
    by (simp add: neutral_def option.map_comp comp_def)
qed

lemma dot_inside_comment:
  "CHR ''}'' \<notin> set b \<Longrightarrow>
     dot_outside True (b @ CHR ''}'' # ys) = map_option (\<lambda>k. Suc (length b) + k) (dot_outside False ys)"
proof (induction b)
  case Nil
  show ?case by (cases "dot_outside False ys") simp_all
next
  case (Cons a b)
  then show ?case by (cases "dot_outside False ys") auto
qed

lemma neutral_comment:
  "CHR ''}'' \<notin> set b \<Longrightarrow> neutral (CHR ''{'' # b @ [CHR ''}''])"
  by (simp add: neutral_def dot_inside_comment option.map_comp comp_def)

lemma skip_space_consumed:
  assumes "skip_space s = Inr s'"
  shows "consumed s s' = takeWhile isspace (rest s)"
proof -
  from assms have "s' = s\<lparr>source_buf := source_buf s + length (takeWhile isspace (rest s)),
                      line := line s + count_list (takeWhile isspace (rest s)) (CHR 0x0A)\<rparr>"
    by (simp add: skip_space_eq split: if_splits)
  from consumed_prefix[OF this] show ?thesis by (simp add: take_takeWhile_id)
qed

lemma ident_scan_consumed:
  assumes "ident_scan s = Inr s'"
  shows "consumed s s' = takeWhile (\<lambda>c. isalnum c \<or> c = CHR ''_'') (rest s)"
proof -
  from assms have "s' = s\<lparr>source_buf := source_buf s +
                      length (takeWhile (\<lambda>c. isalnum c \<or> c = CHR ''_'') (rest s)), line := line s\<rparr>"
    by (simp add: ident_scan_eq split: if_splits)
  from consumed_prefix[OF this] show ?thesis by (simp add: take_takeWhile_id)
qed

lemma number_scan_consumed:
  assumes "number_scan s = Inr s'"
  shows "consumed s s' = takeWhile isdigit (rest s)"
proof -
  from assms have "s' = s\<lparr>source_buf := source_buf s + length (takeWhile isdigit (rest s)),
                      line := line s\<rparr>"
    by (simp add: number_scan_eq split: if_splits)
  from consumed_prefix[OF this] show ?thesis by (simp add: take_takeWhile_id)
qed

lemma comment_consumed:
  assumes "comment s = Inr s'"
  shows "consumed s s' = takeWhile in_comment (rest s) @ [CHR ''}'']"
proof -
  let ?ws = "takeWhile in_comment (rest s)"
  from assms have n: "length ?ws < length (rest s)"
    and e: "rest s ! length ?ws = CHR ''}''"
    and s': "s' = s\<lparr>source_buf := source_buf s + Suc (length ?ws),
                      line := line s + count_list ?ws (CHR 0x0A)\<rparr>"
    by (simp_all add: comment_eq split: if_splits)
  show ?thesis
    using take_Suc_takeWhile[OF n] e by (simp add: consumed_prefix[OF s'])
qed

lemma plain_classes:
  "isspace c \<Longrightarrow> c \<noteq> CHR ''.'' \<and> c \<noteq> CHR ''{''"
  "isalnum c \<or> c = CHR ''_'' \<Longrightarrow> c \<noteq> CHR ''.'' \<and> c \<noteq> CHR ''{''"
  "isdigit c \<Longrightarrow> c \<noteq> CHR ''.'' \<and> c \<noteq> CHR ''{''"
  by (auto simp: isspace_def isalnum_def isalpha_def isdigit_def)

lemma neutral_takeWhile:
  "(\<And>c. P c \<Longrightarrow> c \<noteq> CHR ''.'' \<and> c \<noteq> CHR ''{'') \<Longrightarrow> neutral (takeWhile P xs)"
  by (rule neutral_plain) (auto dest: set_takeWhileD)

lemma skip_space_neutral: "skip_space s = Inr s' \<Longrightarrow> neutral (consumed s s')"
  by (simp add: skip_space_consumed neutral_takeWhile plain_classes)

lemma comment_neutral:
  assumes "comment s = Inr s'" "peek s = Some (CHR ''{'')"
  shows "neutral (consumed s s')"
proof -
  from assms(2) obtain r where r: "rest s = CHR ''{'' # r" using peek_Some_rest by blast
  have "CHR ''}'' \<notin> set (takeWhile in_comment r)"
    by (rule takeWhile_avoids) (simp add: in_comment_def)
  from neutral_comment[OF this] show ?thesis
    by (simp add: comment_consumed[OF assms(1)] r in_comment_def)
qed

subsection \<open>Where a token starts\<close>

text \<open>
  Every token that \<open>lex\<close> returns is produced by one of five steps, taken at a state
  \<open>s1\<close> that lies behind the white space and the comments in front of the token; the
  stretch up to \<open>s1\<close> is neutral.
\<close>

definition token_step :: "scanner \<Rightarrow> char \<Rightarrow> token \<times> scanner \<Rightarrow> bool" where
  "token_step s1 c r =
     ((isalpha c \<or> c = CHR ''_'') \<and> ident s1 = Inr r
      \<or> isdigit c \<and> number s1 = Inr r
      \<or> (\<exists>ty. single c = Some ty \<and> lex_value ty (advance s1) = Inr r)
      \<or> c = CHR '':'' \<and> peek (advance s1) = Some (CHR ''='')
          \<and> r = (make_token '':='' ASSIGN, advance (advance s1))
      \<or> c = CHR 0x00 \<and> lex_value DOT s1 = Inr r)"

lemma lex_token_start:
  "lex s = Inr r \<Longrightarrow>
     \<exists>s1 c. scans s s1 \<and> neutral (consumed s s1) \<and> peek s1 = Some c \<and> token_step s1 c r"
proof (induction s rule: lex.induct)
  case (1 s)
  from "1.prems" obtain s1 c where sk: "skip_space s = Inr s1" and p: "peek s1 = Some c"
    by (rule lex_Inr_skip)
  note a = skip_space_scans[OF sk] and n = skip_space_neutral[OF sk]
  show ?case
  proof (cases c rule: byte_cases)
    case ident
    from "1.prems" have "ident s1 = Inr r" unfolding lex_ident_case[OF sk p ident] .
    with ident have "token_step s1 c r" by (simp add: token_step_def)
    with a n p show ?thesis by blast
  next
    case number
    from "1.prems" have "number s1 = Inr r" unfolding lex_number_case[OF sk p number] .
    with number have "token_step s1 c r" by (simp add: token_step_def)
    with a n p show ?thesis by blast
  next
    case (single ty)
    from "1.prems" have "lex_value ty (advance s1) = Inr r"
      unfolding lex_single_case[OF sk p single] .
    with single have "token_step s1 c r" by (auto simp add: token_step_def)
    with a n p show ?thesis by blast
  next
    case colon
    from "1.prems" have "peek (advance s1) = Some (CHR ''='')
        \<and> r = (make_token '':='' ASSIGN, advance (advance s1))"
      unfolding lex_colon_case[OF sk p[unfolded colon]]
      by (auto simp: die_def split: option.splits if_splits)
    with colon have "token_step s1 c r" by (simp add: token_step_def)
    with a n p show ?thesis by blast
  next
    case comment
    from comment have nc: "\<not> (isalpha c \<or> c = CHR ''_'')" "\<not> isdigit c"
      by (simp_all add: isalpha_def isdigit_def)
    from "1.prems" obtain s2 where c: "comment s1 = Inr s2" and l: "lex s2 = Inr r"
      unfolding lex_comment_case[OF sk p[unfolded comment]] by (auto split: sum.splits)
    from "1.IH"[OF sk p nc _ _ _ _ _ _ _ _ _ _ _ _ _ _ comment c l] comment
    obtain s3 d where s3: "scans s2 s3" "neutral (consumed s2 s3)" "peek s3 = Some d"
      "token_step s3 d r" by auto
    from comment_scans[OF c] have c2: "scans s1 s2" by simp
    have n2: "neutral (consumed s1 s2)"
      by (rule comment_neutral[OF c p[unfolded comment]])
    from a c2 have "consumed s s2 = consumed s s1 @ consumed s1 s2"
      by (intro consumed_append) (simp_all add: scans_def)
    with n n2 have n3: "neutral (consumed s s2)" by (simp add: neutral_append)
    from a c2 have a2: "scans s s2" by (rule scans_trans)
    from a2 s3(1) have "consumed s s3 = consumed s s2 @ consumed s2 s3"
      by (intro consumed_append) (simp_all add: scans_def)
    with n3 s3(2) have "neutral (consumed s s3)" by (simp add: neutral_append)
    moreover from a2 s3(1) have "scans s s3" by (rule scans_trans)
    ultimately show ?thesis using s3(3,4) by blast
  next
    case eof
    from "1.prems" have "lex_value DOT s1 = Inr r" unfolding lex_eof_case[OF sk p[unfolded eof]] .
    with eof have "token_step s1 c r" by (simp add: token_step_def)
    with a n p show ?thesis by blast
  next
    case unknown
    from "1.prems" show ?thesis
      unfolding lex_unknown_case[OF sk p unknown] by (simp add: die_def)
  qed
qed

lemma ident_type: "ident s = Inr (t, s') \<Longrightarrow> type t \<noteq> DOT \<and> type t \<noteq> EQUAL \<and> type t \<noteq> NUMBER"
  by (auto simp: ident_def Let_def make_token_def split: sum.splits if_splits)

lemma single_DOT: "single c = Some DOT \<Longrightarrow> c = CHR ''.''"
  by (simp add: single_def split: if_splits)

lemma lex_dot:
  assumes "lex s = Inr (t, s')" "type t = DOT"
  shows "peek s' = Some (CHR 0x00)
       \<or> (source_buf s < source_buf s' \<and> anchor s ! (source_buf s' - 1) = CHR ''.'')"
proof -
  from lex_token_start[OF assms(1)] obtain s1 c
    where a: "scans s s1" and p: "peek s1 = Some c" and st: "token_step s1 c (t, s')"
    by blast
  from st consider (ident) "ident s1 = Inr (t, s')" | (number) "number s1 = Inr (t, s')"
    | (single) ty where "single c = Some ty" "lex_value ty (advance s1) = Inr (t, s')"
    | (colon) "t = make_token '':='' ASSIGN"
    | (eof) "c = CHR 0x00" "lex_value DOT s1 = Inr (t, s')"
    by (auto simp: token_step_def)
  then show ?thesis
  proof cases
    case ident
    with ident_type assms(2) show ?thesis by blast
  next
    case number
    with number_Inr(2) assms(2) show ?thesis by fastforce
  next
    case (single ty)
    from lex_value_Inr[OF single(2)] assms(2) have s': "s' = advance s1" and "ty = DOT"
      by simp_all
    with single(1) have "c = CHR ''.''" by (simp add: single_DOT)
    with p have "anchor s1 ! source_buf s1 = CHR ''.''"
      by (simp add: peek_def split: if_splits)
    with a s' show ?thesis by (simp add: scans_def)
  next
    case colon
    with assms(2) show ?thesis by (simp add: make_token_def)
  next
    case eof
    from lex_value_Inr[OF eof(2)] p eof(1) show ?thesis by simp
  qed
qed

subsection \<open>The driver loop\<close>

lemma parse_loop_done: "type t = DOT \<Longrightarrow> parse_loop t s out = Inr (s, out)"
  by (simp add: parse_loop.simps)

lemma parse_loop_fail:
  "type t \<noteq> DOT \<Longrightarrow> lex s = Inl e \<Longrightarrow> parse_loop t s out = Inl (e, out)"
  by (simp add: parse_loop.simps[of t s out])

lemma parse_loop_step:
  "type t \<noteq> DOT \<Longrightarrow> lex s = Inr (t', s') \<Longrightarrow>
     parse_loop t s out = parse_loop t' s' (out @ [(line s', t')])"
  by (simp add: parse_loop.simps[of t s out])

definition printed ::
  "((scanner \<times> failure) \<times> (nat \<times> token) list) + (scanner \<times> (nat \<times> token) list) \<Rightarrow>
     (nat \<times> token) list" where
  "printed r = (case r of Inl (e, out) \<Rightarrow> out | Inr (s, out) \<Rightarrow> out)"

lemma parse_loop_shape:
  "type t \<noteq> DOT \<Longrightarrow> parse_loop t s out = Inr (s', out') \<Longrightarrow>
     \<exists>mid tk sk. out' = out @ mid @ [(line s', tk)] \<and> type tk = DOT \<and>
        (\<forall>x\<in>set mid. type (snd x) \<noteq> DOT) \<and> lex sk = Inr (tk, s') \<and>
        anchor sk = anchor s \<and> source_buf s \<le> source_buf sk"
proof (induction t s out rule: parse_loop.induct)
  case (1 t s out)
  from "1.prems" obtain t1 s1 where l: "lex s = Inr (t1, s1)"
    by (cases "lex s") (auto simp: parse_loop_fail)
  from "1.prems" have eq: "parse_loop t1 s1 (out @ [(line s1, t1)]) = Inr (s', out')"
    by (simp add: parse_loop_step[OF _ l])
  show ?case
  proof (cases "type t1 = DOT")
    case True
    with eq have "s' = s1" "out' = out @ [] @ [(line s', t1)]"
      by (auto simp add: parse_loop_done)
    with True l show ?thesis
      by (intro exI[of _ "[]"] exI[of _ t1] exI[of _ s]) simp
  next
    case False
    from "1.IH"[OF "1.prems"(1) l refl False eq]
    obtain mid tk sk where m: "out' = (out @ [(line s1, t1)]) @ mid @ [(line s', tk)]"
      "type tk = DOT" "\<forall>x\<in>set mid. type (snd x) \<noteq> DOT" "lex sk = Inr (tk, s')"
      "anchor sk = anchor s1" "source_buf s1 \<le> source_buf sk"
      by blast
    from lex_scans[OF l] have "anchor s1 = anchor s" "source_buf s \<le> source_buf s1"
      by (simp_all add: scans_def)
    with m False have "out' = out @ ((line s1, t1) # mid) @ [(line s', tk)]"
      "\<forall>x\<in>set ((line s1, t1) # mid). type (snd x) \<noteq> DOT"
      "anchor sk = anchor s" "source_buf s \<le> source_buf sk"
      by simp_all
    with m(2,4) show ?thesis
      by (intro exI[of _ "(line s1, t1) # mid"] exI[of _ tk] exI[of _ sk]) simp
  qed
qed

lemma parse_loop_died:
  "type t \<noteq> DOT \<Longrightarrow> parse_loop t s out = Inl (e, out') \<Longrightarrow>
     \<exists>mid. out' = out @ mid \<and> (\<forall>x\<in>set mid. type (snd x) \<noteq> DOT)"
proof (induction t s out rule: parse_loop.induct)
  case (1 t s out)
  show ?case
  proof (cases "lex s")
    case (Inl e')
    with "1.prems" have "out' = out @ []" by (simp add: parse_loop_fail)
    then show ?thesis by (intro exI[of _ "[]"]) simp
  next
    case (Inr r)
    obtain t1 s1 where r: "r = (t1, s1)" by (cases r)
    with Inr have l: "lex s = Inr (t1, s1)" by simp
    from "1.prems" have eq: "parse_loop t1 s1 (out @ [(line s1, t1)]) = Inl (e, out')"
      by (simp add: parse_loop_step[OF _ l])
    have nd: "type t1 \<noteq> DOT"
      using eq by (auto simp: parse_loop_done)
    from "1.IH"[OF "1.prems"(1) l refl nd eq]
    obtain mid where "out' = (out @ [(line s1, t1)]) @ mid" "\<forall>x\<in>set mid. type (snd x) \<noteq> DOT"
      by blast
    with nd have "out' = out @ ((line s1, t1) # mid)"
      "\<forall>x\<in>set ((line s1, t1) # mid). type (snd x) \<noteq> DOT"
      by simp_all
    then show ?thesis
      by (intro exI[of _ "(line s1, t1) # mid"]) simp
  qed
qed

lemma parse_loop_lines:
  "\<exists>new. printed (parse_loop t s out) = out @ new \<and> sorted (map fst new) \<and>
      (\<forall>x\<in>set new. line s \<le> fst x)"
proof (induction t s out rule: parse_loop.induct)
  case (1 t s out)
  show ?case
  proof (cases "type t = DOT")
    case True
    then have "printed (parse_loop t s out) = out @ []"
      by (simp add: parse_loop_done printed_def)
    then show ?thesis by (intro exI[of _ "[]"]) simp
  next
    case False
    show ?thesis
    proof (cases "lex s")
      case (Inl e)
      with False have "printed (parse_loop t s out) = out @ []"
        by (simp add: parse_loop_fail printed_def)
      then show ?thesis by (intro exI[of _ "[]"]) simp
    next
      case (Inr r)
      obtain t1 s1 where r: "r = (t1, s1)" by (cases r)
      with Inr have l: "lex s = Inr (t1, s1)" by simp
      from lex_scans[OF l] have le: "line s \<le> line s1" by (simp add: scans_def)
      from "1.IH"[OF False l refl] obtain new
        where n: "printed (parse_loop t1 s1 (out @ [(line s1, t1)])) = (out @ [(line s1, t1)]) @ new"
          "sorted (map fst new)" "\<forall>x\<in>set new. line s1 \<le> fst x"
        by blast
      from n le have "printed (parse_loop t s out) = out @ ((line s1, t1) # new)"
        "sorted (map fst ((line s1, t1) # new))"
        "\<forall>x\<in>set ((line s1, t1) # new). line s \<le> fst x"
        by (auto simp: parse_loop_step[OF False l])
      then show ?thesis
        by (intro exI[of _ "(line s1, t1) # new"]) simp
    qed
  qed
qed

lemma parse_loop_safe:
  "terminated s \<Longrightarrow> parse_loop t s out \<noteq> Inl ((l, Out_of_bounds), out')"
proof (induction t s out rule: parse_loop.induct)
  case (1 t s out)
  show ?case
  proof (cases "type t = DOT")
    case True
    then show ?thesis by (simp add: parse_loop_done)
  next
    case False
    show ?thesis
    proof (cases "lex s")
      case (Inl e)
      with lex_safe[OF "1.prems", of l] False show ?thesis
        by (auto simp: parse_loop_fail)
    next
      case (Inr r)
      obtain t1 s1 where r: "r = (t1, s1)" by (cases r)
      with Inr have l: "lex s = Inr (t1, s1)" by simp
      from lex_scans[OF l] "1.prems" have "terminated s1"
        by (blast intro: scans_terminated)
      from "1.IH"[OF False l refl this] show ?thesis
        by (simp add: parse_loop_step[OF False l])
    qed
  qed
qed

subsection \<open>Numbers and identifiers in a terminated block\<close>

lemma c_str_append_NUL: "CHR 0x00 \<notin> set xs \<Longrightarrow> c_str (xs @ [CHR 0x00]) = xs"
  by (induction xs) (auto simp: c_str_def)

lemma get_token_run:
  assumes "CHR 0x00 \<notin> set (takeWhile P (rest s))"
  shows "get_token (anchor s) (source_buf s) (source_buf s + length (takeWhile P (rest s)))
           = takeWhile P (rest s)"
proof -
  have "take (length (takeWhile P (rest s))) (drop (source_buf s) (anchor s)) = takeWhile P (rest s)"
    using take_takeWhile_id[of P "rest s"] by (simp add: rest_def)
  with assms show ?thesis
    by (simp add: get_token_def c_str_append_NUL)
qed

lemma skip_space_keeps_terminated:
  "terminated s \<Longrightarrow> skip_space s = Inr s1 \<Longrightarrow> terminated s1"
  by (blast intro: scans_terminated skip_space_scans)

lemma number_terminated:
  assumes "terminated s"
  shows "number s =
           (if decimal (takeWhile isdigit (rest s)) \<le> LONG_MAX
            then Inr (\<lparr>value = takeWhile isdigit (rest s), type = NUMBER\<rparr>,
                      s\<lparr>source_buf := source_buf s + length (takeWhile isdigit (rest s))\<rparr>)
            else Inl (s\<lparr>source_buf := source_buf s + length (takeWhile isdigit (rest s))\<rparr>,
                      Invalid_number))"
proof -
  have "CHR 0x00 \<notin> set (takeWhile isdigit (rest s))" by (rule takeWhile_avoids) simp
  from get_token_run[OF this] show ?thesis
    by (simp add: number_def number_scan_terminated[OF assms] Let_def strtol_errno_def
          die_def make_token_def not_less)
qed

text \<open>The keyword table, as the specification lists it.\<close>

definition keyword_table :: "(string \<times> token_type) list" where
  "keyword_table =
     [(''const'', CONST_T), (''var'', VAR), (''procedure'', PROCEDURE), (''call'', CALL),
      (''begin'', BEGIN), (''end'', END), (''if'', IF), (''then'', THEN_T),
      (''while'', WHILE), (''do'', DO), (''odd'', ODD)]"

definition keyword_type :: "string \<Rightarrow> token_type" where
  "keyword_type w = (case map_of keyword_table w of Some k \<Rightarrow> k | None \<Rightarrow> IDENT)"

lemma ident_terminated:
  assumes "terminated s"
  shows "ident s =
           Inr (\<lparr>value = takeWhile (\<lambda>c. isalnum c \<or> c = CHR ''_'') (rest s),
                  type = keyword_type (takeWhile (\<lambda>c. isalnum c \<or> c = CHR ''_'') (rest s))\<rparr>,
                s\<lparr>source_buf := source_buf s +
                     length (takeWhile (\<lambda>c. isalnum c \<or> c = CHR ''_'') (rest s))\<rparr>)"
proof -
  have "CHR 0x00 \<notin> set (takeWhile (\<lambda>c. isalnum c \<or> c = CHR ''_'') (rest s))"
    by (rule takeWhile_avoids) simp
  from get_token_run[OF this] show ?thesis
    by (simp add: ident_def ident_scan_terminated[OF assms] Let_def make_token_def
          keyword_type_def keyword_table_def)
qed

lemma line_advance: "line (advance s) = line s"
  by (simp add: advance_def)

subsection \<open>The line a fatal error reports\<close>

lemma skip_space_Inl_line: "skip_space s = Inl (s', e) \<Longrightarrow> line s \<le> line s'"
  by (auto simp: skip_space_eq split: if_splits)

lemma comment_Inl_line: "comment s = Inl (s', e) \<Longrightarrow> line s \<le> line s'"
  by (auto simp: comment_eq split: if_splits)

lemma ident_Inl_line: "ident s = Inl (s', e) \<Longrightarrow> line s \<le> line s'"
  by (auto simp: ident_def ident_scan_eq Let_def split: sum.splits if_splits)

lemma number_Inl_line: "number s = Inl (s', e) \<Longrightarrow> line s \<le> line s'"
  by (auto simp: number_def number_scan_eq Let_def die_def split: sum.splits if_splits)

lemma lex_value_Inl_line: "lex_value ty s = Inl (s', e) \<Longrightarrow> line s \<le> line s'"
  by (auto simp: lex_value_def die_def split: option.splits)

lemma scans_line_le: "scans s s' \<Longrightarrow> line s \<le> line s'"
  by (simp add: scans_def)

lemma lex_Inl_line: "lex s = Inl (s', e) \<Longrightarrow> line s \<le> line s'"
proof (induction s rule: lex.induct)
  case (1 s)
  show ?case
  proof (cases "skip_space s")
    case (Inl x)
    with "1.prems" have "skip_space s = Inl (s', e)"
      by (subst (asm) lex_unfold) simp
    then show ?thesis by (rule skip_space_Inl_line)
  next
    case (Inr s1)
    note sk = Inr
    from scans_line_le[OF skip_space_scans[OF sk]] have a: "line s \<le> line s1" .
    show ?thesis
    proof (cases "peek s1")
      case None
      with "1.prems" sk a show ?thesis
        by (subst (asm) lex_unfold) (simp add: die_def)
    next
      case (Some c)
      note p = Some
      have "line s1 \<le> line s'"
      proof (cases c rule: byte_cases)
        case ident
        from "1.prems" show ?thesis
          unfolding lex_ident_case[OF sk p ident] by (rule ident_Inl_line)
      next
        case number
        from "1.prems" show ?thesis
          unfolding lex_number_case[OF sk p number] by (rule number_Inl_line)
      next
        case (single ty)
        from "1.prems" have "line (advance s1) \<le> line s'"
          unfolding lex_single_case[OF sk p single] by (rule lex_value_Inl_line)
        then show ?thesis by (simp add: line_advance)
      next
        case colon
        from "1.prems" show ?thesis
          unfolding lex_colon_case[OF sk p[unfolded colon]]
          by (auto simp: die_def line_advance split: option.splits if_splits)
      next
        case comment
        from comment have n: "\<not> (isalpha c \<or> c = CHR ''_'')" "\<not> isdigit c"
          by (simp_all add: isalpha_def isdigit_def)
        note eq = lex_comment_case[OF sk p[unfolded comment]]
        show ?thesis
        proof (cases "comment s1")
          case (Inl x)
          with "1.prems" have "comment s1 = Inl (s', e)" unfolding eq by simp
          then show ?thesis by (rule comment_Inl_line)
        next
          case (Inr s2)
          with "1.prems" have l2: "lex s2 = Inl (s', e)" unfolding eq by simp
          from "1.IH"[OF sk p n _ _ _ _ _ _ _ _ _ _ _ _ _ _ comment Inr l2] comment
          have "line s2 \<le> line s'" by simp
          with comment_scans[OF Inr] show ?thesis by (simp add: scans_def)
        qed
      next
        case eof
        from "1.prems" show ?thesis
          unfolding lex_eof_case[OF sk p[unfolded eof]] by (rule lex_value_Inl_line)
      next
        case unknown
        from "1.prems" show ?thesis
          unfolding lex_unknown_case[OF sk p unknown] by (simp add: die_def)
      qed
      with a show ?thesis by simp
    qed
  qed
qed

lemma lex_Inr_in_range:
  assumes "lex s = Inr r"
  shows "scans s s"
proof -
  from assms obtain s1 c where "skip_space s = Inr s1" by (rule lex_Inr_skip)
  from skip_space_scans[OF this] have "source_buf s \<le> length (anchor s)"
    by (simp add: scans_def)
  then show ?thesis by (rule scans_refl)
qed

lemma parse_loop_last_call:
  "type t \<noteq> DOT \<Longrightarrow> parse_loop t s out = Inr (s', out') \<Longrightarrow>
     \<exists>tk sk. scans s sk \<and> lex sk = Inr (tk, s') \<and> type tk = DOT"
proof (induction t s out rule: parse_loop.induct)
  case (1 t s out)
  from "1.prems" obtain t1 s1 where l: "lex s = Inr (t1, s1)"
    by (cases "lex s") (auto simp: parse_loop_fail)
  from "1.prems" have eq: "parse_loop t1 s1 (out @ [(line s1, t1)]) = Inr (s', out')"
    by (simp add: parse_loop_step[OF _ l])
  show ?case
  proof (cases "type t1 = DOT")
    case True
    with eq have "s' = s1" by (simp add: parse_loop_done)
    with True l lex_Inr_in_range[OF l] show ?thesis by blast
  next
    case False
    from "1.IH"[OF "1.prems"(1) l refl False eq]
    obtain tk sk where "scans s1 sk" "lex sk = Inr (tk, s')" "type tk = DOT" by blast
    moreover from lex_scans[OF l] \<open>scans s1 sk\<close> have "scans s sk"
      by (blast intro: scans_trans)
    ultimately show ?thesis by blast
  qed
qed

lemma parse_loop_scans:
  assumes "type t \<noteq> DOT" "parse_loop t s out = Inr (s', out')"
  shows "scans s s'"
proof -
  from parse_loop_last_call[OF assms] obtain tk sk
    where "scans s sk" "lex sk = Inr (tk, s')" by blast
  with lex_scans show ?thesis by (blast intro: scans_trans)
qed

subsection \<open>The state in which a fatal error leaves the scanner\<close>

text \<open>
  In a terminated block a call of \<open>lex\<close> that dies has scanned like one that returns,
  with one exception: \<open>comment\<close> reads the NUL with \<^verbatim>\<open>*source_buf++\<close> before it calls
  \<^verbatim>\<open>die\<close>, so that the process exits with the pointer one byte behind that NUL.
\<close>

definition died_at :: "scanner \<Rightarrow> scanner \<Rightarrow> failure \<Rightarrow> bool" where
  "died_at s s' e =
     (if e = Unterminated_comment
      then \<exists>sn. scans s sn \<and> peek sn = Some (CHR 0x00) \<and> s' = advance sn
      else scans s s')"

lemma takeWhile_stops:
  "length (takeWhile P xs) < length xs \<Longrightarrow> \<not> P (xs ! length (takeWhile P xs))"
  by (rule nth_length_takeWhile)

lemma comment_Inl_died:
  assumes "terminated s" "comment s = Inl (s', e)"
  shows "died_at s s' e"
proof -
  let ?b = "takeWhile in_comment (rest s)"
  let ?sn = "s\<lparr>source_buf := source_buf s + length ?b,
                line := line s + count_list ?b (CHR 0x0A)\<rparr>"
  have n: "length ?b < length (rest s)"
    by (rule terminated_takeWhile[OF assms(1)]) (simp add: in_comment_def)
  from assms(2) have e: "e = Unterminated_comment"
    and nc: "rest s ! length ?b \<noteq> CHR ''}''"
    and s': "s' = s\<lparr>source_buf := source_buf s + length ?b + 1,
                      line := line s + count_list ?b (CHR 0x0A)\<rparr>"
    by (auto simp: comment_terminated[OF assms(1)] split: if_splits)
  from takeWhile_stops[OF n] nc have z: "rest s ! length ?b = CHR 0x00"
    by (auto simp: in_comment_def)
  have "consumed s ?sn = ?b"
    by (simp add: consumed_def take_takeWhile_id)
  moreover have "CHR 0x00 \<notin> set ?b" by (rule takeWhile_avoids) (simp add: in_comment_def)
  ultimately have "scans s ?sn"
    using n by (simp add: scans_def length_rest)
  moreover have "peek ?sn = Some (CHR 0x00)"
    using n z by (simp add: peek_def rest_def length_rest add.commute)
  moreover have "s' = advance ?sn"
    by (simp add: s' advance_def)
  ultimately show ?thesis
    unfolding died_at_def e by auto
qed

lemma died_at_trans:
  assumes "scans s s1" "died_at s1 s' e"
  shows "died_at s s' e"
  using assms unfolding died_at_def
  by (auto intro: scans_trans split: if_splits)

lemma lex_Inl_died: "terminated s \<Longrightarrow> lex s = Inl (s', e) \<Longrightarrow> died_at s s' e"
proof (induction s rule: lex.induct)
  case (1 s)
  from skip_space_terminated[OF "1.prems"(1)] obtain s1 where sk: "skip_space s = Inr s1"
    by blast
  note a = skip_space_scans[OF sk]
  have t1: "terminated s1" by (rule scans_terminated[OF a "1.prems"(1)])
  from terminated_peek[OF t1] obtain c where p: "peek s1 = Some c" by blast
  have "died_at s1 s' e"
  proof (cases c rule: byte_cases)
    case ident
    from "1.prems"(2) ident_not_oob[OF t1] show ?thesis
      unfolding lex_ident_case[OF sk p ident] by auto
  next
    case number
    let ?sn = "s1\<lparr>source_buf := source_buf s1 + length (takeWhile isdigit (rest s1))\<rparr>"
    from "1.prems"(2) have "s' = ?sn" "e = Invalid_number"
      unfolding lex_number_case[OF sk p number]
      by (auto simp: number_terminated[OF t1] split: if_splits)
    moreover have "scans s1 ?sn"
      using number_scan_scans[of s1 ?sn] by (simp add: number_scan_terminated[OF t1])
    ultimately show ?thesis by (simp add: died_at_def)
  next
    case (single ty)
    from advance_terminated[OF t1 p single_class(5)[OF single]]
    have "\<exists>t. lex_value ty (advance s1) = Inr (t, advance s1)" by (rule lex_value_terminated)
    with "1.prems"(2) show ?thesis
      unfolding lex_single_case[OF sk p single] by auto
  next
    case colon
    from "1.prems"(2) have "s' = advance s1" "e \<noteq> Unterminated_comment"
      unfolding lex_colon_case[OF sk p[unfolded colon]]
      by (auto simp: die_def split: option.splits if_splits)
    moreover have "scans s1 (advance s1)"
      using advance_scans[OF p] colon by simp
    ultimately show ?thesis by (simp add: died_at_def)
  next
    case comment
    from comment have n: "\<not> (isalpha c \<or> c = CHR ''_'')" "\<not> isdigit c"
      by (simp_all add: isalpha_def isdigit_def)
    note eq = lex_comment_case[OF sk p[unfolded comment]]
    show ?thesis
    proof (cases "comment s1")
      case (Inl x)
      with "1.prems"(2) have "comment s1 = Inl (s', e)" unfolding eq by simp
      then show ?thesis by (rule comment_Inl_died[OF t1])
    next
      case (Inr s2)
      with "1.prems"(2) have l2: "lex s2 = Inl (s', e)" unfolding eq by simp
      from comment_scans[OF Inr] have c2: "scans s1 s2" by simp
      from scans_terminated[OF c2 t1] have "terminated s2" .
      from "1.IH"[OF sk p n _ _ _ _ _ _ _ _ _ _ _ _ _ _ comment Inr this l2] comment
      have "died_at s2 s' e" by simp
      with c2 show ?thesis by (rule died_at_trans)
    qed
  next
    case eof
    from "1.prems"(2) lex_value_terminated[OF t1, of DOT] show ?thesis
      unfolding lex_eof_case[OF sk p[unfolded eof]] by auto
  next
    case unknown
    from "1.prems"(2) have "s' = s1" "e \<noteq> Unterminated_comment"
      unfolding lex_unknown_case[OF sk p unknown] by (auto simp: die_def)
    with scans_refl[of s1] peek_in_range[OF p] show ?thesis by (simp add: died_at_def)
  qed
  with a show ?case by (rule died_at_trans)
qed

subsection \<open>The whole run\<close>

lemma parse_scans:
  assumes "parse s = Inr (s', out)"
  shows "scans s s'"
  using assms unfolding parse_def by (intro parse_loop_scans[of _ s "[]" s' out]) simp_all

lemma consumed_readfile:
  "consumed (readfile content) s' = take (source_buf s') (content @ [CHR 0x00])"
  by (simp add: consumed_def rest_def readfile_def)

lemma died_at_frame:
  assumes "died_at s s' e"
  shows "anchor s' = anchor s" and "source_buf s \<le> source_buf s'"
    and "source_buf s' \<le> length (anchor s)"
    and "e \<noteq> Unterminated_comment \<Longrightarrow> CHR 0x00 \<notin> set (consumed s s')"
    and "e = Unterminated_comment \<Longrightarrow>
           \<exists>pre. consumed s s' = pre @ [CHR 0x00] \<and> CHR 0x00 \<notin> set pre"
proof -
  show "e \<noteq> Unterminated_comment \<Longrightarrow> CHR 0x00 \<notin> set (consumed s s')"
    using assms by (simp add: died_at_def scans_def)
  have *: "anchor s' = anchor s \<and> source_buf s \<le> source_buf s'
           \<and> source_buf s' \<le> length (anchor s)
           \<and> (e = Unterminated_comment \<longrightarrow>
                (\<exists>pre. consumed s s' = pre @ [CHR 0x00] \<and> CHR 0x00 \<notin> set pre))"
  proof (cases "e = Unterminated_comment")
    case False
    with assms show ?thesis by (simp add: died_at_def scans_def)
  next
    case True
    with assms obtain sn where sn: "scans s sn" "peek sn = Some (CHR 0x00)" "s' = advance sn"
      by (auto simp: died_at_def)
    from sn(2) obtain r where r: "rest sn = CHR 0x00 # r" using peek_Some_rest by blast
    have a: "anchor sn = anchor s" "source_buf s \<le> source_buf sn"
      "CHR 0x00 \<notin> set (consumed s sn)"
      using sn(1) by (simp_all add: scans_def)
    have "consumed s s' = consumed s sn @ consumed sn s'"
      by (rule consumed_append[OF a(1,2)]) (simp add: sn(3))
    moreover have "consumed sn s' = [CHR 0x00]"
      using r by (simp add: consumed_def sn(3))
    ultimately have "\<exists>pre. consumed s s' = pre @ [CHR 0x00] \<and> CHR 0x00 \<notin> set pre"
      using a(3) by simp
    with a peek_in_range[OF sn(2)] show ?thesis
      by (simp add: sn(3) advance_def)
  qed
  from * show "anchor s' = anchor s" "source_buf s \<le> source_buf s'"
    "source_buf s' \<le> length (anchor s)"
    "e = Unterminated_comment \<Longrightarrow>
       \<exists>pre. consumed s s' = pre @ [CHR 0x00] \<and> CHR 0x00 \<notin> set pre"
    by simp_all
qed

lemma parse_shape:
  assumes "parse s = Inr (s', out)"
  shows "\<exists>front tk. out = front @ [(line s', tk)] \<and> type tk = DOT \<and>
           (\<forall>x\<in>set front. type (snd x) \<noteq> DOT)"
proof -
  from assms have "parse_loop \<lparr>value = [], type = IDENT\<rparr> s [] = Inr (s', out)"
    by (simp add: parse_def)
  from parse_loop_shape[OF _ this] show ?thesis by auto
qed

lemma parse_died:
  assumes "parse s = Inl (e, out)"
  shows "\<forall>x\<in>set out. type (snd x) \<noteq> DOT"
proof -
  from assms have "parse_loop \<lparr>value = [], type = IDENT\<rparr> s [] = Inl (e, out)"
    by (simp add: parse_def)
  from parse_loop_died[OF _ this] show ?thesis by auto
qed

subsection \<open>The driver stops behind the first dot outside a comment\<close>

lemma single_not_DOT: "single c = Some ty \<Longrightarrow> ty \<noteq> DOT \<Longrightarrow> c \<noteq> CHR ''.''"
  by (auto simp: single_def)

lemma consumed_advance: "peek s = Some c \<Longrightarrow> consumed s (advance s) = [c]"
  by (auto simp: consumed_def dest!: peek_Some_rest)

text \<open>What the step that produces the token itself steps over.\<close>

lemma token_step_consumed:
  assumes "peek s1 = Some c" "token_step s1 c (t, s')"
  shows "if type t = DOT
         then (c = CHR ''.'' \<and> s' = advance s1) \<or> (c = CHR 0x00 \<and> s' = s1)
         else scans s1 s' \<and> neutral (consumed s1 s')"
proof -
  from assms(2) consider (ident) "ident s1 = Inr (t, s')" | (number) "number s1 = Inr (t, s')"
    | (single) ty where "single c = Some ty" "lex_value ty (advance s1) = Inr (t, s')"
    | (colon) "c = CHR '':''" "peek (advance s1) = Some (CHR ''='')"
        "t = make_token '':='' ASSIGN" "s' = advance (advance s1)"
    | (eof) "c = CHR 0x00" "lex_value DOT s1 = Inr (t, s')"
    by (auto simp: token_step_def)
  then show ?thesis
  proof cases
    case ident
    from ident_Inr(1)[OF ident] have i: "ident_scan s1 = Inr s'" .
    have "neutral (consumed s1 s')"
      unfolding ident_scan_consumed[OF i] by (rule neutral_takeWhile) (rule plain_classes(2))
    with ident_type[OF ident] ident_scan_scans[OF i] show ?thesis by simp
  next
    case number
    from number_Inr[OF number] have i: "number_scan s1 = Inr s'" and ty: "type t = NUMBER"
      by simp_all
    have "neutral (consumed s1 s')"
      unfolding number_scan_consumed[OF i] by (rule neutral_takeWhile) (rule plain_classes(3))
    with ty number_scan_scans[OF i] show ?thesis by simp
  next
    case (single ty)
    from lex_value_Inr[OF single(2)] have s': "s' = advance s1" and ty: "type t = ty"
      by simp_all
    show ?thesis
    proof (cases "ty = DOT")
      case True
      with single(1) s' ty show ?thesis by (simp add: single_DOT)
    next
      case False
      from single_not_DOT[OF single(1) False] single_class(8)[OF single(1)]
      have "neutral [c]" by (intro neutral_plain) simp
      with False ty s' consumed_advance[OF assms(1)]
        advance_scans[OF assms(1) single_class(5,6)[OF single(1)]]
      show ?thesis by simp
    qed
  next
    case colon
    have 1: "scans s1 (advance s1)"
      using advance_scans[OF assms(1)] colon(1) by simp
    have 2: "scans (advance s1) (advance (advance s1))"
      using advance_scans[OF colon(2)] by simp
    have "consumed s1 s' = consumed s1 (advance s1) @ consumed (advance s1) (advance (advance s1))"
      unfolding colon(4) by (rule consumed_append) (simp_all add: advance_def)
    then have "consumed s1 s' = [CHR '':'', CHR ''='']"
      using consumed_advance[OF assms(1)] consumed_advance[OF colon(2)] colon(1) by simp
    then have "neutral (consumed s1 s')" by (simp add: neutral_plain)
    moreover from 1 2 have "scans s1 s'" unfolding colon(4) by (rule scans_trans)
    ultimately show ?thesis using colon(3) by (simp add: make_token_def)
  next
    case eof
    from lex_value_Inr[OF eof(2)] eof(1) show ?thesis by simp
  qed
qed

lemma lex_neutral:
  assumes "lex s = Inr (t, s')"
  shows "if type t = DOT
         then (\<exists>n. consumed s s' = n @ [CHR ''.''] \<and> neutral n)
              \<or> (peek s' = Some (CHR 0x00) \<and> neutral (consumed s s'))
         else neutral (consumed s s')"
proof -
  from lex_token_start[OF assms] obtain s1 c
    where a: "scans s s1" and n: "neutral (consumed s s1)" and p: "peek s1 = Some c"
      and st: "token_step s1 c (t, s')"
    by blast
  note ts = token_step_consumed[OF p st]
  show ?thesis
  proof (cases "type t = DOT")
    case True
    with ts consider (dot) "c = CHR ''.''" "s' = advance s1" | (eof) "c = CHR 0x00" "s' = s1"
      by auto
    then show ?thesis
    proof cases
      case dot
      from a have "consumed s s' = consumed s s1 @ consumed s1 s'"
        by (intro consumed_append) (simp_all add: scans_def dot(2))
      with consumed_advance[OF p] dot have "consumed s s' = consumed s s1 @ [CHR ''.'']"
        by simp
      with n True show ?thesis by auto
    next
      case eof
      with n p True show ?thesis by simp
    qed
  next
    case False
    with ts have b: "scans s1 s'" "neutral (consumed s1 s')" by simp_all
    from a b(1) have "consumed s s' = consumed s s1 @ consumed s1 s'"
      by (intro consumed_append) (simp_all add: scans_def)
    with n b(2) False show ?thesis by (simp add: neutral_append)
  qed
qed

lemma parse_loop_neutral:
  "type t \<noteq> DOT \<Longrightarrow> parse_loop t s out = Inr (s', out') \<Longrightarrow>
     (\<exists>n. consumed s s' = n @ [CHR ''.''] \<and> neutral n)
     \<or> (peek s' = Some (CHR 0x00) \<and> neutral (consumed s s'))"
proof (induction t s out rule: parse_loop.induct)
  case (1 t s out)
  from "1.prems" obtain t1 s1 where l: "lex s = Inr (t1, s1)"
    by (cases "lex s") (auto simp: parse_loop_fail)
  from "1.prems" have eq: "parse_loop t1 s1 (out @ [(line s1, t1)]) = Inr (s', out')"
    by (simp add: parse_loop_step[OF _ l])
  show ?case
  proof (cases "type t1 = DOT")
    case True
    with eq have "s' = s1" by (simp add: parse_loop_done)
    with lex_neutral[OF l] True show ?thesis by simp
  next
    case False
    with lex_neutral[OF l] have n1: "neutral (consumed s s1)" by simp
    from lex_scans[OF l] have a: "scans s s1" by simp
    from parse_loop_scans[OF False eq] have b: "scans s1 s'" .
    from a b have c: "consumed s s' = consumed s s1 @ consumed s1 s'"
      by (intro consumed_append) (simp_all add: scans_def)
    from "1.IH"[OF "1.prems"(1) l refl False eq]
    show ?thesis
    proof
      assume "\<exists>n. consumed s1 s' = n @ [CHR ''.''] \<and> neutral n"
      then obtain n where "consumed s1 s' = n @ [CHR ''.'']" "neutral n" by blast
      with c n1 have "consumed s s' = (consumed s s1 @ n) @ [CHR ''.'']"
        "neutral (consumed s s1 @ n)"
        by (simp_all add: neutral_append)
      then show ?thesis by blast
    next
      assume "peek s' = Some (CHR 0x00) \<and> neutral (consumed s1 s')"
      with c n1 show ?thesis by (simp add: neutral_append)
    qed
  qed
qed

lemma parse_stops_at_first_dot:
  assumes "parse (readfile content) = Inr (s', out)" "CHR 0x00 \<notin> set content"
  shows "source_buf s' = (case dot_outside False content of Some i \<Rightarrow> Suc i | None \<Rightarrow> length content)"
proof -
  let ?k = "source_buf s'"
  from assms(1) have pl: "parse_loop \<lparr>value = [], type = IDENT\<rparr> (readfile content) [] = Inr (s', out)"
    by (simp add: parse_def)
  from parse_scans[OF assms(1)] have sc: "scans (readfile content) s'" .
  from scans_terminated[OF sc terminated_readfile] have "terminated s'" .
  from terminated_peek[OF this] obtain c where pc: "peek s' = Some c" by blast
  from peek_in_range[OF pc] sc have a: "anchor s' = content @ [CHR 0x00]" and k: "?k \<le> length content"
    by (simp_all add: scans_def readfile_def)
  from k have con: "consumed (readfile content) s' = take ?k content"
    by (simp add: consumed_readfile)
  have "type \<lparr>value = [], type = IDENT\<rparr> \<noteq> DOT" by simp
  from parse_loop_neutral[OF this pl] show ?thesis
  proof
    assume "\<exists>n. consumed (readfile content) s' = n @ [CHR ''.''] \<and> neutral n"
    then obtain n where n: "take ?k content = n @ [CHR ''.'']" "neutral n"
      by (auto simp: con)
    from n(1) k have len: "?k = Suc (length n)"
      by (metis length_append_singleton length_take min.absorb2)
    have "content = (n @ [CHR ''.'']) @ drop ?k content"
      using n(1) append_take_drop_id[of ?k content] by simp
    then have "dot_outside False content = dot_outside False (n @ (CHR ''.'' # drop ?k content))"
      by simp
    also have "\<dots> = Some (length n)"
      using n(2) by (simp add: neutral_def)
    finally show ?thesis using len by simp
  next
    assume e: "peek s' = Some (CHR 0x00) \<and> neutral (consumed (readfile content) s')"
    have "?k = length content"
    proof (rule ccontr)
      assume "?k \<noteq> length content"
      with k have lt: "?k < length content" by simp
      with e a have "content ! ?k = CHR 0x00"
        by (simp add: peek_def nth_append)
      with lt assms(2) show False by (metis nth_mem)
    qed
    moreover from e con this have "neutral content" by simp
    then have "dot_outside False (content @ []) = None"
      unfolding neutral_def by (metis dot_outside.simps(1) option.map_disc_iff)
    ultimately show ?thesis by simp
  qed
qed

lemma lex_never_EQUAL: "lex s = Inr (t, s') \<Longrightarrow> type t \<noteq> EQUAL"
proof -
  assume "lex s = Inr (t, s')"
  from lex_token_start[OF this] obtain s1 c where st: "token_step s1 c (t, s')"
    by blast
  then consider (ident) "ident s1 = Inr (t, s')" | (number) "number s1 = Inr (t, s')"
    | (single) ty where "single c = Some ty" "lex_value ty (advance s1) = Inr (t, s')"
    | (colon) "t = make_token '':='' ASSIGN"
    | (eof) "lex_value DOT s1 = Inr (t, s')"
    by (auto simp: token_step_def)
  then show ?thesis
  proof cases
    case ident
    with ident_type show ?thesis by blast
  next
    case number
    with number_Inr(2) show ?thesis by fastforce
  next
    case (single ty)
    from single(1) have "ty \<noteq> EQUAL" by (auto simp: single_def split: if_splits)
    with lex_value_Inr[OF single(2)] show ?thesis by simp
  next
    case colon
    then show ?thesis by (simp add: make_token_def)
  next
    case eof
    from lex_value_Inr[OF eof] show ?thesis by simp
  qed
qed

lemma died_at_line:
  assumes "died_at s s' e"
  shows "line s' = line s + count_list (consumed s s') (CHR 0x0A)"
proof (cases "e = Unterminated_comment")
  case False
  with assms show ?thesis by (simp add: died_at_def scans_def)
next
  case True
  with assms obtain sn where sn: "scans s sn" "peek sn = Some (CHR 0x00)" "s' = advance sn"
    by (auto simp: died_at_def)
  have a: "anchor sn = anchor s" "source_buf s \<le> source_buf sn"
    "line sn = line s + count_list (consumed s sn) (CHR 0x0A)"
    using sn(1) by (simp_all add: scans_def)
  have "consumed s s' = consumed s sn @ consumed sn s'"
    by (rule consumed_append[OF a(1,2)]) (simp add: sn(3))
  moreover have "consumed sn s' = [CHR 0x00]"
    unfolding sn(3) by (rule consumed_advance[OF sn(2)])
  ultimately show ?thesis
    using a(3) by (simp add: sn(3) line_advance)
qed

lemma parse_loop_died_at:
  "terminated s \<Longrightarrow> type t \<noteq> DOT \<Longrightarrow> parse_loop t s out = Inl ((s', e), out') \<Longrightarrow>
     died_at s s' e"
proof (induction t s out rule: parse_loop.induct)
  case (1 t s out)
  show ?case
  proof (cases "lex s")
    case (Inl x)
    with "1.prems" have "lex s = Inl (s', e)" by (simp add: parse_loop_fail)
    then show ?thesis by (rule lex_Inl_died[OF "1.prems"(1)])
  next
    case (Inr r)
    obtain t1 s1 where r: "r = (t1, s1)" by (cases r)
    with Inr have l: "lex s = Inr (t1, s1)" by simp
    from "1.prems" have eq: "parse_loop t1 s1 (out @ [(line s1, t1)]) = Inl ((s', e), out')"
      by (simp add: parse_loop_step[OF _ l])
    have nd: "type t1 \<noteq> DOT"
      using eq by (auto simp: parse_loop_done)
    from lex_scans[OF l] have sc: "scans s s1" by simp
    from scans_terminated[OF sc "1.prems"(1)] have t1: "terminated s1" .
    from "1.IH"[OF "1.prems"(2) l refl t1 nd eq] have "died_at s1 s' e" .
    with sc show ?thesis by (rule died_at_trans)
  qed
qed

lemma parse_loop_printed_lines:
  "\<exists>new. printed (parse_loop t s out) = out @ new \<and>
      (\<forall>x\<in>set new. \<exists>sk sk'. scans s sk \<and> lex sk = Inr (snd x, sk') \<and> fst x = line sk')"
proof (induction t s out rule: parse_loop.induct)
  case (1 t s out)
  show ?case
  proof (cases "type t = DOT")
    case True
    then have "printed (parse_loop t s out) = out @ []"
      by (simp add: parse_loop_done printed_def)
    then show ?thesis by (intro exI[of _ "[]"]) simp
  next
    case False
    show ?thesis
    proof (cases "lex s")
      case (Inl e)
      with False have "printed (parse_loop t s out) = out @ []"
        by (simp add: parse_loop_fail printed_def split: prod.splits)
      then show ?thesis by (intro exI[of _ "[]"]) simp
    next
      case (Inr r)
      obtain t1 s1 where r: "r = (t1, s1)" by (cases r)
      with Inr have l: "lex s = Inr (t1, s1)" by simp
      from lex_scans[OF l] have sc: "scans s s1" by simp
      from "1.IH"[OF False l refl] obtain new
        where n: "printed (parse_loop t1 s1 (out @ [(line s1, t1)])) = (out @ [(line s1, t1)]) @ new"
          "\<forall>x\<in>set new. \<exists>sk sk'. scans s1 sk \<and> lex sk = Inr (snd x, sk') \<and> fst x = line sk'"
        by blast
      have "\<forall>x\<in>set new. \<exists>sk sk'. scans s sk \<and> lex sk = Inr (snd x, sk') \<and> fst x = line sk'"
      proof
        fix x assume "x \<in> set new"
        with n(2) obtain sk sk' where "scans s1 sk" "lex sk = Inr (snd x, sk')" "fst x = line sk'"
          by blast
        with scans_trans[OF sc] show "\<exists>sk sk'. scans s sk \<and> lex sk = Inr (snd x, sk') \<and> fst x = line sk'"
          by blast
      qed
      moreover have "\<exists>sk sk'. scans s sk \<and> lex sk = Inr (t1, sk') \<and> line s1 = line sk'"
        using l lex_Inr_in_range[OF l] by blast
      ultimately have "\<forall>x\<in>set ((line s1, t1) # new).
          \<exists>sk sk'. scans s sk \<and> lex sk = Inr (snd x, sk') \<and> fst x = line sk'"
        by simp
      moreover from n(1) have "printed (parse_loop t s out) = out @ ((line s1, t1) # new)"
        by (simp add: parse_loop_step[OF False l])
      ultimately show ?thesis
        by (intro exI[of _ "(line s1, t1) # new"]) simp
    qed
  qed
qed

text \<open>
  When the driver ends without a fatal error, the last token it printed is of kind Dot and
  no token before it is; the state it ends in is the one left by the call of \<open>lex\<close>
  that returned that token; and if the source holds no NUL, the pointer then rests
  directly behind the first \<^verbatim>\<open>.\<close> that lies outside every comment
  (\<open>dot_outside False content\<close>), wherever in the source that is, and on the terminating
  null when there is no such \<^verbatim>\<open>.\<close>. In any case the pointer rests on a NUL or directly
  behind a \<^verbatim>\<open>.\<close>. When the driver ends with a fatal error no Dot-kind token has been
  printed. On \<^verbatim>\<open>a.b;c\<close> the driver prints two tokens and stops with the pointer at
  offset 2, although \<open>lex\<close> would return an identifier from there.
\<close>

lemma driver_stops_behind_first_dot:
  "(\<forall>s' out. parse (readfile content) = Inr (s', out) \<longrightarrow>
      out \<noteq> [] \<and> type (snd (last out)) = DOT
      \<and> (\<forall>x\<in>set (butlast out). type (snd x) \<noteq> DOT)
      \<and> (\<exists>sk. lex sk = Inr (snd (last out), s'))
      \<and> anchor s' = content @ [CHR 0x00]
      \<and> (CHR 0x00 \<notin> set content \<longrightarrow>
            source_buf s' = (case dot_outside False content of
                               Some i \<Rightarrow> Suc i | None \<Rightarrow> length content))
      \<and> (peek s' = Some (CHR 0x00)
          \<or> (0 < source_buf s' \<and> source_buf s' \<le> length content
              \<and> content ! (source_buf s' - 1) = CHR ''.'')))
   \<and> (\<forall>e out. parse (readfile content) = Inl (e, out) \<longrightarrow>
        (\<forall>x\<in>set out. type (snd x) \<noteq> DOT))
   \<and> parse (readfile ''a.b;c'') =
        Inr (\<lparr>anchor = ''a.b;c'' @ [CHR 0x00], source_buf = 2, line = 1\<rparr>,
             [(1, \<lparr>value = ''a'', type = IDENT\<rparr>), (1, \<lparr>value = ''b'', type = DOT\<rparr>)])
   \<and> lex \<lparr>anchor = ''a.b;c'' @ [CHR 0x00], source_buf = 2, line = 1\<rparr> =
        Inr (\<lparr>value = ''b'', type = IDENT\<rparr>,
             \<lparr>anchor = ''a.b;c'' @ [CHR 0x00], source_buf = 3, line = 1\<rparr>)"
proof -
  have "\<forall>s' out. parse (readfile content) = Inr (s', out) \<longrightarrow>
      out \<noteq> [] \<and> type (snd (last out)) = DOT
      \<and> (\<forall>x\<in>set (butlast out). type (snd x) \<noteq> DOT)
      \<and> (\<exists>sk. lex sk = Inr (snd (last out), s'))
      \<and> anchor s' = content @ [CHR 0x00]
      \<and> (CHR 0x00 \<notin> set content \<longrightarrow>
            source_buf s' = (case dot_outside False content of
                               Some i \<Rightarrow> Suc i | None \<Rightarrow> length content))
      \<and> (peek s' = Some (CHR 0x00)
          \<or> (0 < source_buf s' \<and> source_buf s' \<le> length content
              \<and> content ! (source_buf s' - 1) = CHR ''.''))"
  proof (intro allI impI)
    fix s' out
    assume p: "parse (readfile content) = Inr (s', out)"
    then have pl: "parse_loop \<lparr>value = [], type = IDENT\<rparr> (readfile content) [] = Inr (s', out)"
      by (simp add: parse_def)
    from parse_loop_shape[OF _ pl] obtain mid tk sk
      where o: "out = mid @ [(line s', tk)]" and tk: "type tk = DOT"
        and mid: "\<forall>x\<in>set mid. type (snd x) \<noteq> DOT" and l: "lex sk = Inr (tk, s')"
        and sk: "anchor sk = anchor (readfile content)"
      by auto
    from parse_scans[OF p] have sc: "scans (readfile content) s'" .
    from scans_terminated[OF sc terminated_readfile] have "terminated s'" .
    from terminated_peek[OF this] obtain c where "peek s' = Some c" by blast
    from peek_in_range[OF this] sc
    have a: "anchor s' = content @ [CHR 0x00]" "source_buf s' \<le> length content"
      by (simp_all add: scans_def readfile_def)
    have d: "peek s' = Some (CHR 0x00)
          \<or> (0 < source_buf s' \<and> source_buf s' \<le> length content
              \<and> content ! (source_buf s' - 1) = CHR ''.'')"
    proof (cases "peek s' = Some (CHR 0x00)")
      case True
      then show ?thesis by simp
    next
      case False
      with lex_dot[OF l tk] have d: "source_buf sk < source_buf s'"
        "anchor sk ! (source_buf s' - 1) = CHR ''.''"
        by simp_all
      from d(1) a(2) have "source_buf s' - 1 < length content" by simp
      with d sk a(2) show ?thesis by (simp add: readfile_def nth_append)
    qed
    have f: "CHR 0x00 \<notin> set content \<longrightarrow>
            source_buf s' = (case dot_outside False content of
                               Some i \<Rightarrow> Suc i | None \<Rightarrow> length content)"
      using parse_stops_at_first_dot[OF p] by blast
    from o tk mid l have "out \<noteq> [] \<and> type (snd (last out)) = DOT
      \<and> (\<forall>x\<in>set (butlast out). type (snd x) \<noteq> DOT)
      \<and> (\<exists>sk. lex sk = Inr (snd (last out), s'))"
      by auto
    with a(1) f d
    show "out \<noteq> [] \<and> type (snd (last out)) = DOT
      \<and> (\<forall>x\<in>set (butlast out). type (snd x) \<noteq> DOT)
      \<and> (\<exists>sk. lex sk = Inr (snd (last out), s'))
      \<and> anchor s' = content @ [CHR 0x00]
      \<and> (CHR 0x00 \<notin> set content \<longrightarrow>
            source_buf s' = (case dot_outside False content of
                               Some i \<Rightarrow> Suc i | None \<Rightarrow> length content))
      \<and> (peek s' = Some (CHR 0x00)
          \<or> (0 < source_buf s' \<and> source_buf s' \<le> length content
              \<and> content ! (source_buf s' - 1) = CHR ''.''))"
      by blast
  qed
  moreover have "\<forall>e out. parse (readfile content) = Inl (e, out) \<longrightarrow>
        (\<forall>x\<in>set out. type (snd x) \<noteq> DOT)"
    using parse_died by blast
  moreover have "parse (readfile ''a.b;c'') =
        Inr (\<lparr>anchor = ''a.b;c'' @ [CHR 0x00], source_buf = 2, line = 1\<rparr>,
             [(1, \<lparr>value = ''a'', type = IDENT\<rparr>), (1, \<lparr>value = ''b'', type = DOT\<rparr>)])"
    by code_simp
  moreover have "lex \<lparr>anchor = ''a.b;c'' @ [CHR 0x00], source_buf = 2, line = 1\<rparr> =
        Inr (\<lparr>value = ''b'', type = IDENT\<rparr>,
             \<lparr>anchor = ''a.b;c'' @ [CHR 0x00], source_buf = 3, line = 1\<rparr>)"
    by code_simp
  ultimately show ?thesis by blast
qed

lemma driver_stops_behind_first_dot_example:
  "parse (readfile ''x{.}.y.'') =
     Inr (\<lparr>anchor = ''x{.}.y.'' @ [CHR 0x00], source_buf = 5, line = 1\<rparr>,
          [(1, \<lparr>value = ''x'', type = IDENT\<rparr>), (1, \<lparr>value = ''y'', type = DOT\<rparr>)])
   \<and> CHR 0x00 \<notin> set ''x{.}.y.''
   \<and> dot_outside False ''x{.}.y.'' = Some 4
   \<and> source_buf \<lparr>anchor = ''x{.}.y.'' @ [CHR 0x00], source_buf = 5, line = 1\<rparr> =
       (case dot_outside False ''x{.}.y.'' of Some i \<Rightarrow> Suc i | None \<Rightarrow> length ''x{.}.y.'')
   \<and> ''x{.}.y.'' ! (5 - 1) = CHR ''.''"
proof -
  let ?s' = "\<lparr>anchor = ''x{.}.y.'' @ [CHR 0x00], source_buf = 5, line = 1\<rparr>"
  have p: "parse (readfile ''x{.}.y.'') =
     Inr (?s', [(1, \<lparr>value = ''x'', type = IDENT\<rparr>), (1, \<lparr>value = ''y'', type = DOT\<rparr>)])"
    by code_simp
  have n: "CHR 0x00 \<notin> set ''x{.}.y.''" by code_simp
  have d: "dot_outside False ''x{.}.y.'' = Some 4" by code_simp
  have e: "''x{.}.y.'' ! (5 - 1) = CHR ''.''" by code_simp
  from driver_stops_behind_first_dot[of "''x{.}.y.''"] p n
  have "source_buf ?s' =
       (case dot_outside False ''x{.}.y.'' of Some i \<Rightarrow> Suc i | None \<Rightarrow> length ''x{.}.y.'')"
    by blast
  with p n d e show ?thesis by blast
qed

section \<open>The claims\<close>

text \<open>
  C1. Every emitted token's text is the exact substring of the source that produced it;
  scanning \<^verbatim>\<open>123.\<close> yields Number \<^verbatim>\<open>123\<close> and then Dot with text \<^verbatim>\<open>.\<close>, both on
  line 1.

  The code does not do this for the tokens of one byte: each \<^verbatim>\<open>case\<close> steps the pointer
  over the byte before \<^verbatim>\<open>value[0] = *source_buf\<close> reads it, so the text is the byte
  after the token, and empty when that byte is the NUL. On \<^verbatim>\<open>123.\<close> the driver prints
  the Number \<^verbatim>\<open>123\<close> and a Dot whose text is empty.
\<close>

theorem C1_dot_text_is_next_byte:
  "(\<forall>s1 c ty. terminated s \<longrightarrow> skip_space s = Inr s1 \<longrightarrow> peek s1 = Some c \<longrightarrow>
       single c = Some ty \<longrightarrow>
       (\<exists>d. peek (advance s1) = Some d \<and>
            lex s = Inr (\<lparr>value = (if d = CHR 0x00 then [] else [d]), type = ty\<rparr>, advance s1)))
   \<and> parse (readfile ''123.'') =
     Inr (\<lparr>anchor = ''123.'' @ [CHR 0x00], source_buf = 4, line = 1\<rparr>,
          [(1, \<lparr>value = ''123'', type = NUMBER\<rparr>), (1, \<lparr>value = [], type = DOT\<rparr>)])
   \<and> parse (readfile ''1+2.'') =
     Inr (\<lparr>anchor = ''1+2.'' @ [CHR 0x00], source_buf = 4, line = 1\<rparr>,
          [(1, \<lparr>value = ''1'', type = NUMBER\<rparr>), (1, \<lparr>value = ''2'', type = PLUS\<rparr>),
           (1, \<lparr>value = ''2'', type = NUMBER\<rparr>), (1, \<lparr>value = [], type = DOT\<rparr>)])"
proof -
  have "\<forall>s1 c ty. terminated s \<longrightarrow> skip_space s = Inr s1 \<longrightarrow> peek s1 = Some c \<longrightarrow>
       single c = Some ty \<longrightarrow>
       (\<exists>d. peek (advance s1) = Some d \<and>
            lex s = Inr (\<lparr>value = (if d = CHR 0x00 then [] else [d]), type = ty\<rparr>, advance s1))"
  proof (intro allI impI)
    fix s1 c ty
    assume t: "terminated s" and sk: "skip_space s = Inr s1" and p: "peek s1 = Some c"
      and si: "single c = Some ty"
    have t1: "terminated s1" by (rule skip_space_keeps_terminated[OF t sk])
    from advance_terminated[OF t1 p single_class(5)[OF si]] have "terminated (advance s1)" .
    from terminated_peek[OF this] obtain d where d: "peek (advance s1) = Some d" by blast
    have "lex s = Inr (\<lparr>value = (if d = CHR 0x00 then [] else [d]), type = ty\<rparr>, advance s1)"
      unfolding lex_single_case[OF sk p si]
      by (simp add: lex_value_def d make_token_def c_str_def)
    with d show "\<exists>d. peek (advance s1) = Some d \<and>
            lex s = Inr (\<lparr>value = (if d = CHR 0x00 then [] else [d]), type = ty\<rparr>, advance s1)"
      by blast
  qed
  moreover have "parse (readfile ''123.'') =
     Inr (\<lparr>anchor = ''123.'' @ [CHR 0x00], source_buf = 4, line = 1\<rparr>,
          [(1, \<lparr>value = ''123'', type = NUMBER\<rparr>), (1, \<lparr>value = [], type = DOT\<rparr>)])"
    by code_simp
  moreover have "parse (readfile ''1+2.'') =
     Inr (\<lparr>anchor = ''1+2.'' @ [CHR 0x00], source_buf = 4, line = 1\<rparr>,
          [(1, \<lparr>value = ''1'', type = NUMBER\<rparr>), (1, \<lparr>value = ''2'', type = PLUS\<rparr>),
           (1, \<lparr>value = ''2'', type = NUMBER\<rparr>), (1, \<lparr>value = [], type = DOT\<rparr>)])"
    by code_simp
  ultimately show ?thesis by blast
qed

theorem C1_dot_text_is_next_byte_witness:
  "terminated \<lparr>anchor = ''123.'' @ [CHR 0x00], source_buf = 3, line = 1\<rparr>
   \<and> skip_space \<lparr>anchor = ''123.'' @ [CHR 0x00], source_buf = 3, line = 1\<rparr> =
       Inr \<lparr>anchor = ''123.'' @ [CHR 0x00], source_buf = 3, line = 1\<rparr>
   \<and> peek \<lparr>anchor = ''123.'' @ [CHR 0x00], source_buf = 3, line = 1\<rparr> = Some (CHR ''.'')
   \<and> single (CHR ''.'') = Some DOT
   \<and> peek (advance \<lparr>anchor = ''123.'' @ [CHR 0x00], source_buf = 3, line = 1\<rparr>) = Some (CHR 0x00)
   \<and> lex \<lparr>anchor = ''123.'' @ [CHR 0x00], source_buf = 3, line = 1\<rparr> =
       Inr (\<lparr>value = [], type = DOT\<rparr>,
            advance \<lparr>anchor = ''123.'' @ [CHR 0x00], source_buf = 3, line = 1\<rparr>)"
proof -
  let ?s = "\<lparr>anchor = ''123.'' @ [CHR 0x00], source_buf = 3, line = 1\<rparr>"
  have h1: "terminated ?s" by code_simp
  have h2: "skip_space ?s = Inr ?s" by code_simp
  have h3: "peek ?s = Some (CHR ''.'')" by code_simp
  have h4: "single (CHR ''.'') = Some DOT" by code_simp
  have h5: "peek (advance ?s) = Some (CHR 0x00)" by code_simp
  from C1_dot_text_is_next_byte[of ?s] h1 h2 h3 h4
  obtain d where "peek (advance ?s) = Some d"
    "lex ?s = Inr (\<lparr>value = (if d = CHR 0x00 then [] else [d]), type = DOT\<rparr>, advance ?s)"
    by blast
  with h5 have "lex ?s = Inr (\<lparr>value = [], type = DOT\<rparr>, advance ?s)" by simp
  with h1 h2 h3 h4 h5 show ?thesis by blast
qed

text \<open>
  C2. Each of the thirteen single characters maps to its own token kind and consumes one
  character; scanning \<^verbatim>\<open>=\<close> gives the kind Equal, distinct from the kind of \<^verbatim>\<open>:=\<close>.

  The code assigns \<^verbatim>\<open>ASSIGN\<close> in \<^verbatim>\<open>case '='\<close>: scanning \<^verbatim>\<open>=\<close> gives the same type as
  scanning \<^verbatim>\<open>:=\<close>, and no call of \<open>lex\<close> ever returns a token of type \<^verbatim>\<open>EQUAL\<close>.
\<close>

theorem C2_equal_sign_lexes_as_assign:
  "(\<forall>t s'. lex s = Inr (t, s') \<longrightarrow> type t \<noteq> EQUAL)
   \<and> lex (readfile ''='') =
     Inr (\<lparr>value = [], type = ASSIGN\<rparr>,
          \<lparr>anchor = ''='' @ [CHR 0x00], source_buf = 1, line = 1\<rparr>)
   \<and> lex (readfile '':='') =
     Inr (\<lparr>value = '':='', type = ASSIGN\<rparr>,
          \<lparr>anchor = '':='' @ [CHR 0x00], source_buf = 2, line = 1\<rparr>)"
proof -
  have "\<forall>t s'. lex s = Inr (t, s') \<longrightarrow> type t \<noteq> EQUAL"
    using lex_never_EQUAL by blast
  moreover have "lex (readfile ''='') =
     Inr (\<lparr>value = [], type = ASSIGN\<rparr>,
          \<lparr>anchor = ''='' @ [CHR 0x00], source_buf = 1, line = 1\<rparr>)"
    by code_simp
  moreover have "lex (readfile '':='') =
     Inr (\<lparr>value = '':='', type = ASSIGN\<rparr>,
          \<lparr>anchor = '':='' @ [CHR 0x00], source_buf = 2, line = 1\<rparr>)"
    by code_simp
  ultimately show ?thesis by blast
qed

theorem C2_equal_sign_lexes_as_assign_witness:
  "lex (readfile ''a = b'') =
     Inr (\<lparr>value = ''a'', type = IDENT\<rparr>,
          \<lparr>anchor = ''a = b'' @ [CHR 0x00], source_buf = 1, line = 1\<rparr>)
   \<and> lex \<lparr>anchor = ''a = b'' @ [CHR 0x00], source_buf = 1, line = 1\<rparr> =
     Inr (\<lparr>value = '' '', type = ASSIGN\<rparr>,
          \<lparr>anchor = ''a = b'' @ [CHR 0x00], source_buf = 3, line = 1\<rparr>)
   \<and> type \<lparr>value = '' '', type = ASSIGN\<rparr> \<noteq> EQUAL"
proof -
  let ?s = "\<lparr>anchor = ''a = b'' @ [CHR 0x00], source_buf = 1, line = 1\<rparr>"
  have a: "lex (readfile ''a = b'') = Inr (\<lparr>value = ''a'', type = IDENT\<rparr>, ?s)"
    by code_simp
  have l: "lex ?s = Inr (\<lparr>value = '' '', type = ASSIGN\<rparr>,
          \<lparr>anchor = ''a = b'' @ [CHR 0x00], source_buf = 3, line = 1\<rparr>)"
    by code_simp
  from C2_equal_sign_lexes_as_assign[of ?s] l
  have "type \<lparr>value = '' '', type = ASSIGN\<rparr> \<noteq> EQUAL" by blast
  with a l show ?thesis by blast
qed

text \<open>
  C3. For every input, at the terminating null the scanner produces a synthetic Dot-kind
  token, the token sequence delivered to the caller ends with exactly one such
  end-of-input-signalling token, and no token is produced after it.

  This fails for the inputs on which the scanner dies: the driver has then printed the
  tokens before the error, none of them of kind Dot, and nothing ends the sequence. What
  holds: with the pointer on a NUL (after the white space) \<open>lex\<close> returns a Dot token
  with empty text and leaves the pointer on the NUL; the driver always ends; when it
  ends without a fatal error, what it printed ends with a Dot-kind token (from the NUL
  or from a \<^verbatim>\<open>.\<close> of the source), which is the only Dot-kind token printed.
\<close>

theorem C3_dot_ends_the_sequence:
  "(\<forall>s1. skip_space s = Inr s1 \<longrightarrow> peek s1 = Some (CHR 0x00) \<longrightarrow>
        lex s = Inr (\<lparr>value = [], type = DOT\<rparr>, s1))
   \<and> (\<forall>s' out. parse (readfile content) = Inr (s', out) \<longrightarrow>
        (\<exists>front tk. out = front @ [(line s', tk)] \<and> type tk = DOT \<and>
           (\<forall>x\<in>set front. type (snd x) \<noteq> DOT)))
   \<and> (\<forall>e out. parse (readfile content) = Inl (e, out) \<longrightarrow>
        (\<forall>x\<in>set out. type (snd x) \<noteq> DOT))"
proof -
  have "\<forall>s1. skip_space s = Inr s1 \<longrightarrow> peek s1 = Some (CHR 0x00) \<longrightarrow>
        lex s = Inr (\<lparr>value = [], type = DOT\<rparr>, s1)"
    by (auto simp: lex_eof_case lex_value_def make_token_def c_str_def)
  moreover have "\<forall>s' out. parse (readfile content) = Inr (s', out) \<longrightarrow>
        (\<exists>front tk. out = front @ [(line s', tk)] \<and> type tk = DOT \<and>
           (\<forall>x\<in>set front. type (snd x) \<noteq> DOT))"
    using parse_shape by blast
  moreover have "\<forall>e out. parse (readfile content) = Inl (e, out) \<longrightarrow>
        (\<forall>x\<in>set out. type (snd x) \<noteq> DOT)"
    using parse_died by blast
  ultimately show ?thesis by blast
qed

theorem C3_dot_ends_the_sequence_witness:
  "skip_space (readfile ''x '') = Inr \<lparr>anchor = ''x '' @ [CHR 0x00], source_buf = 0, line = 1\<rparr>
   \<and> skip_space \<lparr>anchor = ''x '' @ [CHR 0x00], source_buf = 1, line = 1\<rparr> =
       Inr \<lparr>anchor = ''x '' @ [CHR 0x00], source_buf = 2, line = 1\<rparr>
   \<and> peek \<lparr>anchor = ''x '' @ [CHR 0x00], source_buf = 2, line = 1\<rparr> = Some (CHR 0x00)
   \<and> lex \<lparr>anchor = ''x '' @ [CHR 0x00], source_buf = 1, line = 1\<rparr> =
       Inr (\<lparr>value = [], type = DOT\<rparr>, \<lparr>anchor = ''x '' @ [CHR 0x00], source_buf = 2, line = 1\<rparr>)
   \<and> parse (readfile ''x '') =
       Inr (\<lparr>anchor = ''x '' @ [CHR 0x00], source_buf = 2, line = 1\<rparr>,
            [(1, \<lparr>value = ''x'', type = IDENT\<rparr>), (1, \<lparr>value = [], type = DOT\<rparr>)])
   \<and> (\<exists>front tk. [(1::nat, \<lparr>value = ''x'', type = IDENT\<rparr>), (1, \<lparr>value = [], type = DOT\<rparr>)]
         = front @ [(1, tk)] \<and> type tk = DOT \<and> (\<forall>x\<in>set front. type (snd x) \<noteq> DOT))"
proof -
  let ?s = "\<lparr>anchor = ''x '' @ [CHR 0x00], source_buf = 1, line = 1\<rparr>"
  let ?s1 = "\<lparr>anchor = ''x '' @ [CHR 0x00], source_buf = 2, line = 1\<rparr>"
  have h0: "skip_space (readfile ''x '') = Inr \<lparr>anchor = ''x '' @ [CHR 0x00], source_buf = 0, line = 1\<rparr>"
    by code_simp
  have h1: "skip_space ?s = Inr ?s1" by code_simp
  have h2: "peek ?s1 = Some (CHR 0x00)" by code_simp
  have p: "parse (readfile ''x '') =
       Inr (?s1, [(1, \<lparr>value = ''x'', type = IDENT\<rparr>), (1, \<lparr>value = [], type = DOT\<rparr>)])"
    by code_simp
  note t = C3_dot_ends_the_sequence[of ?s "''x ''"]
  from t h1 h2 have l: "lex ?s = Inr (\<lparr>value = [], type = DOT\<rparr>, ?s1)" by blast
  from t p have "\<exists>front tk. [(1::nat, \<lparr>value = ''x'', type = IDENT\<rparr>), (1, \<lparr>value = [], type = DOT\<rparr>)]
         = front @ [(line ?s1, tk)] \<and> type tk = DOT \<and> (\<forall>x\<in>set front. type (snd x) \<noteq> DOT)"
    by blast
  then have "\<exists>front tk. [(1::nat, \<lparr>value = ''x'', type = IDENT\<rparr>), (1, \<lparr>value = [], type = DOT\<rparr>)]
         = front @ [(1, tk)] \<and> type tk = DOT \<and> (\<forall>x\<in>set front. type (snd x) \<noteq> DOT)"
    by simp
  with h0 h1 h2 l p show ?thesis by blast
qed

theorem C3_no_dot_after_fatal_error_counterexample:
  "parse (readfile ''a ?'') =
     Inl ((\<lparr>anchor = ''a ?'' @ [CHR 0x00], source_buf = 2, line = 1\<rparr>, Unknown_token (CHR ''?'')),
          [(1, \<lparr>value = ''a'', type = IDENT\<rparr>)])
   \<and> printed (parse (readfile ''a ?'')) = [(1, \<lparr>value = ''a'', type = IDENT\<rparr>)]
   \<and> type (snd (last (printed (parse (readfile ''a ?''))))) \<noteq> DOT"
  by code_simp

text \<open>
  C4. Comments are transparent and do not nest: on \<^verbatim>\<open>{\<close> the scanner consumes up to
  the first following \<^verbatim>\<open>}\<close> without producing a token, counts every newline inside, and
  dies with "Unterminated comment" (exit status 1) when the input ends before a
  \<^verbatim>\<open>}\<close>.

  After the white space, with the pointer on \<^verbatim>\<open>{\<close> in a NUL-terminated block, let
  \<open>body\<close> be the longest run of bytes from the pointer on that are neither \<^verbatim>\<open>}\<close> nor
  NUL (it starts with the \<^verbatim>\<open>{\<close> and may hold further \<^verbatim>\<open>{\<close>). If the byte after
  \<open>body\<close> is \<^verbatim>\<open>}\<close>, the call returns whatever scanning from just behind that \<^verbatim>\<open>}\<close>
  returns, with the line counter raised by the newlines of \<open>body\<close>; otherwise it dies
  with \<open>Unterminated_comment\<close>.
\<close>

theorem C4_comment_transparent:
  assumes "terminated s" and "skip_space s = Inr s1" and "peek s1 = Some (CHR ''{'')"
  shows "(let body = takeWhile in_comment (rest s1) in
            lex s =
              (if rest s1 ! length body = CHR ''}''
               then lex (s1\<lparr>source_buf := source_buf s1 + length body + 1,
                             line := line s1 + count_list body (CHR 0x0A)\<rparr>)
               else Inl (s1\<lparr>source_buf := source_buf s1 + length body + 1,
                           line := line s1 + count_list body (CHR 0x0A)\<rparr>,
                         Unterminated_comment)))
         \<and> lex (readfile ''{unterminated'') =
             Inl (\<lparr>anchor = ''{unterminated'' @ [CHR 0x00], source_buf = 14, line = 1\<rparr>,
                  Unterminated_comment)
         \<and> main ''{unterminated'' = 1
         \<and> parse (readfile [CHR ''{'', CHR ''a'', CHR 0x0A, CHR ''{'', CHR 0x0A, CHR ''}'',
                              CHR ''b'', CHR ''}'']) =
             Inl ((\<lparr>anchor = [CHR ''{'', CHR ''a'', CHR 0x0A, CHR ''{'', CHR 0x0A, CHR ''}'',
                               CHR ''b'', CHR ''}'', CHR 0x00], source_buf = 7, line = 3\<rparr>,
                   Unknown_token (CHR ''}'')), [(3, \<lparr>value = ''b'', type = IDENT\<rparr>)])"
proof -
  have t1: "terminated s1" by (rule skip_space_keeps_terminated[OF assms(1,2)])
  have "lex s = (case comment s1 of Inl e \<Rightarrow> Inl e | Inr s2 \<Rightarrow> lex s2)"
    by (rule lex_comment_case[OF assms(2,3)])
  then have "let body = takeWhile in_comment (rest s1) in
            lex s =
              (if rest s1 ! length body = CHR ''}''
               then lex (s1\<lparr>source_buf := source_buf s1 + length body + 1,
                             line := line s1 + count_list body (CHR 0x0A)\<rparr>)
               else Inl (s1\<lparr>source_buf := source_buf s1 + length body + 1,
                           line := line s1 + count_list body (CHR 0x0A)\<rparr>,
                         Unterminated_comment))"
    by (simp add: comment_terminated[OF t1] Let_def)
  moreover have "lex (readfile ''{unterminated'') =
             Inl (\<lparr>anchor = ''{unterminated'' @ [CHR 0x00], source_buf = 14, line = 1\<rparr>,
                  Unterminated_comment)"
    by code_simp
  moreover have "main ''{unterminated'' = 1"
    by code_simp
  moreover have "parse (readfile [CHR ''{'', CHR ''a'', CHR 0x0A, CHR ''{'', CHR 0x0A, CHR ''}'',
                              CHR ''b'', CHR ''}'']) =
             Inl ((\<lparr>anchor = [CHR ''{'', CHR ''a'', CHR 0x0A, CHR ''{'', CHR 0x0A, CHR ''}'',
                               CHR ''b'', CHR ''}'', CHR 0x00], source_buf = 7, line = 3\<rparr>,
                   Unknown_token (CHR ''}'')), [(3, \<lparr>value = ''b'', type = IDENT\<rparr>)])"
    by code_simp
  ultimately show ?thesis by blast
qed

theorem C4_comment_transparent_witness:
  "terminated (readfile [CHR '' '', CHR ''{'', CHR 0x0A, CHR ''}'', CHR ''x''])
   \<and> skip_space (readfile [CHR '' '', CHR ''{'', CHR 0x0A, CHR ''}'', CHR ''x'']) =
       Inr \<lparr>anchor = [CHR '' '', CHR ''{'', CHR 0x0A, CHR ''}'', CHR ''x'', CHR 0x00],
            source_buf = 1, line = 1\<rparr>
   \<and> peek \<lparr>anchor = [CHR '' '', CHR ''{'', CHR 0x0A, CHR ''}'', CHR ''x'', CHR 0x00],
            source_buf = 1, line = 1\<rparr> = Some (CHR ''{'')
   \<and> lex (readfile [CHR '' '', CHR ''{'', CHR 0x0A, CHR ''}'', CHR ''x'']) =
       lex \<lparr>anchor = [CHR '' '', CHR ''{'', CHR 0x0A, CHR ''}'', CHR ''x'', CHR 0x00],
            source_buf = 4, line = 2\<rparr>
   \<and> lex (readfile [CHR '' '', CHR ''{'', CHR 0x0A, CHR ''}'', CHR ''x'']) =
       Inr (\<lparr>value = ''x'', type = IDENT\<rparr>,
            \<lparr>anchor = [CHR '' '', CHR ''{'', CHR 0x0A, CHR ''}'', CHR ''x'', CHR 0x00],
             source_buf = 5, line = 2\<rparr>)"
proof -
  let ?s = "readfile [CHR '' '', CHR ''{'', CHR 0x0A, CHR ''}'', CHR ''x'']"
  let ?s1 = "\<lparr>anchor = [CHR '' '', CHR ''{'', CHR 0x0A, CHR ''}'', CHR ''x'', CHR 0x00],
              source_buf = 1, line = 1\<rparr>"
  have h1: "terminated ?s" by code_simp
  have h2: "skip_space ?s = Inr ?s1" by code_simp
  have h3: "peek ?s1 = Some (CHR ''{'')" by code_simp
  have b: "takeWhile in_comment (rest ?s1) = [CHR ''{'', CHR 0x0A]" by code_simp
  have r: "rest ?s1 = [CHR ''{'', CHR 0x0A, CHR ''}'', CHR ''x'', CHR 0x00]" by code_simp
  note C4_comment_transparent[OF h1 h2 h3, unfolded Let_def b, unfolded r]
  then have "lex ?s = lex \<lparr>anchor = [CHR '' '', CHR ''{'', CHR 0x0A, CHR ''}'', CHR ''x'', CHR 0x00],
            source_buf = 4, line = 2\<rparr>"
    by (simp add: eval_nat_numeral)
  moreover have "lex ?s = Inr (\<lparr>value = ''x'', type = IDENT\<rparr>,
            \<lparr>anchor = [CHR '' '', CHR ''{'', CHR 0x0A, CHR ''}'', CHR ''x'', CHR 0x00],
             source_buf = 5, line = 2\<rparr>)"
    by code_simp
  ultimately show ?thesis using h1 h2 h3 by blast
qed

text \<open>
  C5. On \<^verbatim>\<open>:\<close> the scanner succeeds only if the next byte is \<^verbatim>\<open>=\<close>, and then returns
  the Assign token with text \<^verbatim>\<open>:=\<close>; for any other next byte it dies with "unknown
  token" at the current line and produces no token. The input \<^verbatim>\<open>:x\<close> is a fatal error
  at line 1 with no token emitted.
\<close>

theorem C5_colon_needs_equal:
  assumes "terminated s" and "skip_space s = Inr s1" and "peek s1 = Some (CHR '':'')"
  shows "(\<exists>d. peek (advance s1) = Some d \<and>
            lex s = (if d = CHR ''=''
                     then Inr (\<lparr>value = '':='', type = ASSIGN\<rparr>, advance (advance s1))
                     else Inl (advance s1, Unknown_token d)))
         \<and> parse (readfile '':x'') =
             Inl ((\<lparr>anchor = '':x'' @ [CHR 0x00], source_buf = 1, line = 1\<rparr>,
                   Unknown_token (CHR ''x'')), [])
         \<and> main '':x'' = 1"
proof -
  have t1: "terminated s1" by (rule skip_space_keeps_terminated[OF assms(1,2)])
  from advance_terminated[OF t1 assms(3)] have "terminated (advance s1)" by simp
  from terminated_peek[OF this] obtain d where d: "peek (advance s1) = Some d" by blast
  have "lex s = (if d = CHR ''=''
                 then Inr (\<lparr>value = '':='', type = ASSIGN\<rparr>, advance (advance s1))
                 else Inl (advance s1, Unknown_token d))"
    unfolding lex_colon_case[OF assms(2,3)]
    by (simp add: d die_def make_token_def)
  with d have "\<exists>d. peek (advance s1) = Some d \<and>
            lex s = (if d = CHR ''=''
                     then Inr (\<lparr>value = '':='', type = ASSIGN\<rparr>, advance (advance s1))
                     else Inl (advance s1, Unknown_token d))"
    by blast
  moreover have "parse (readfile '':x'') =
             Inl ((\<lparr>anchor = '':x'' @ [CHR 0x00], source_buf = 1, line = 1\<rparr>,
                   Unknown_token (CHR ''x'')), [])"
    by code_simp
  moreover have "main '':x'' = 1"
    by code_simp
  ultimately show ?thesis by blast
qed

theorem C5_colon_needs_equal_witness:
  "terminated \<lparr>anchor = ''a :=1'' @ [CHR 0x00], source_buf = 1, line = 1\<rparr>
   \<and> skip_space \<lparr>anchor = ''a :=1'' @ [CHR 0x00], source_buf = 1, line = 1\<rparr> =
       Inr \<lparr>anchor = ''a :=1'' @ [CHR 0x00], source_buf = 2, line = 1\<rparr>
   \<and> peek \<lparr>anchor = ''a :=1'' @ [CHR 0x00], source_buf = 2, line = 1\<rparr> = Some (CHR '':'')
   \<and> lex \<lparr>anchor = ''a :=1'' @ [CHR 0x00], source_buf = 1, line = 1\<rparr> =
       Inr (\<lparr>value = '':='', type = ASSIGN\<rparr>,
            \<lparr>anchor = ''a :=1'' @ [CHR 0x00], source_buf = 4, line = 1\<rparr>)"
proof -
  let ?s = "\<lparr>anchor = ''a :=1'' @ [CHR 0x00], source_buf = 1, line = 1\<rparr>"
  let ?s1 = "\<lparr>anchor = ''a :=1'' @ [CHR 0x00], source_buf = 2, line = 1\<rparr>"
  have h1: "terminated ?s" by code_simp
  have h2: "skip_space ?s = Inr ?s1" by code_simp
  have h3: "peek ?s1 = Some (CHR '':'')" by code_simp
  have p: "peek (advance ?s1) = Some (CHR ''='')" by code_simp
  have a: "advance (advance ?s1) = \<lparr>anchor = ''a :=1'' @ [CHR 0x00], source_buf = 4, line = 1\<rparr>"
    by code_simp
  from C5_colon_needs_equal[OF h1 h2 h3] p
  have "lex ?s = Inr (\<lparr>value = '':='', type = ASSIGN\<rparr>, advance (advance ?s1))"
    by auto
  with a h1 h2 h3 show ?thesis by simp
qed

text \<open>
  C6. Scanning a digit consumes the maximal run of digits; the scan dies with "Invalid
  number" exactly when the run is not representable in the target integer type (the
  \<^verbatim>\<open>long\<close> of \<^verbatim>\<open>strtol\<close>), and otherwise returns a Number token whose text is the run.
  The input \<^verbatim>\<open>99999999999999999999\<close> is a fatal error.
\<close>

theorem C6_number_range_checked:
  assumes "terminated s" and "skip_space s = Inr s1" and "peek s1 = Some c" and "isdigit c"
  shows "(let run = takeWhile isdigit (rest s1) in
            lex s =
              (if decimal run \<le> LONG_MAX
               then Inr (\<lparr>value = run, type = NUMBER\<rparr>,
                         s1\<lparr>source_buf := source_buf s1 + length run\<rparr>)
               else Inl (s1\<lparr>source_buf := source_buf s1 + length run\<rparr>, Invalid_number)))
         \<and> lex (readfile ''99999999999999999999'') =
             Inl (\<lparr>anchor = ''99999999999999999999'' @ [CHR 0x00], source_buf = 20, line = 1\<rparr>,
                  Invalid_number)
         \<and> lex (readfile ''9223372036854775808'') =
             Inl (\<lparr>anchor = ''9223372036854775808'' @ [CHR 0x00], source_buf = 19, line = 1\<rparr>,
                  Invalid_number)
         \<and> lex (readfile ''9223372036854775807'') =
             Inr (\<lparr>value = ''9223372036854775807'', type = NUMBER\<rparr>,
                  \<lparr>anchor = ''9223372036854775807'' @ [CHR 0x00], source_buf = 19, line = 1\<rparr>)"
proof -
  have t1: "terminated s1" by (rule skip_space_keeps_terminated[OF assms(1,2)])
  have "lex s = number s1" by (rule lex_number_case[OF assms(2,3,4)])
  then have "let run = takeWhile isdigit (rest s1) in
            lex s =
              (if decimal run \<le> LONG_MAX
               then Inr (\<lparr>value = run, type = NUMBER\<rparr>,
                         s1\<lparr>source_buf := source_buf s1 + length run\<rparr>)
               else Inl (s1\<lparr>source_buf := source_buf s1 + length run\<rparr>, Invalid_number))"
    by (simp add: number_terminated[OF t1] Let_def)
  moreover have "lex (readfile ''99999999999999999999'') =
             Inl (\<lparr>anchor = ''99999999999999999999'' @ [CHR 0x00], source_buf = 20, line = 1\<rparr>,
                  Invalid_number)"
    by code_simp
  moreover have "lex (readfile ''9223372036854775808'') =
             Inl (\<lparr>anchor = ''9223372036854775808'' @ [CHR 0x00], source_buf = 19, line = 1\<rparr>,
                  Invalid_number)"
    by code_simp
  moreover have "lex (readfile ''9223372036854775807'') =
             Inr (\<lparr>value = ''9223372036854775807'', type = NUMBER\<rparr>,
                  \<lparr>anchor = ''9223372036854775807'' @ [CHR 0x00], source_buf = 19, line = 1\<rparr>)"
    by code_simp
  ultimately show ?thesis by blast
qed

theorem C6_number_range_checked_witness:
  "terminated (readfile '' 42;'')
   \<and> skip_space (readfile '' 42;'') = Inr \<lparr>anchor = '' 42;'' @ [CHR 0x00], source_buf = 1, line = 1\<rparr>
   \<and> peek \<lparr>anchor = '' 42;'' @ [CHR 0x00], source_buf = 1, line = 1\<rparr> = Some (CHR ''4'')
   \<and> isdigit (CHR ''4'')
   \<and> lex (readfile '' 42;'') =
       Inr (\<lparr>value = ''42'', type = NUMBER\<rparr>,
            \<lparr>anchor = '' 42;'' @ [CHR 0x00], source_buf = 3, line = 1\<rparr>)"
proof -
  let ?s1 = "\<lparr>anchor = '' 42;'' @ [CHR 0x00], source_buf = 1, line = 1\<rparr>"
  have h1: "terminated (readfile '' 42;'')" by code_simp
  have h2: "skip_space (readfile '' 42;'') = Inr ?s1" by code_simp
  have h3: "peek ?s1 = Some (CHR ''4'')" by code_simp
  have h4: "isdigit (CHR ''4'')" by code_simp
  have r: "takeWhile isdigit (rest ?s1) = ''42''" by code_simp
  have d: "decimal ''42'' \<le> LONG_MAX" by code_simp
  note C6_number_range_checked[OF h1 h2 h3 h4, unfolded Let_def r]
  with d have "lex (readfile '' 42;'') =
       Inr (\<lparr>value = ''42'', type = NUMBER\<rparr>,
            \<lparr>anchor = '' 42;'' @ [CHR 0x00], source_buf = 3, line = 1\<rparr>)"
    by simp
  with h1 h2 h3 h4 show ?thesis by blast
qed

text \<open>
  C7. For a maximal run of letters, digits and underscores that starts with a letter or
  underscore, the token kind is the keyword kind exactly when the run equals one of the
  eleven keywords, compared exactly and case-sensitively, and Identifier otherwise:
  \<^verbatim>\<open>if\<close> gives the If keyword, \<^verbatim>\<open>ifx\<close> and \<^verbatim>\<open>IF\<close> give Identifier.
\<close>

theorem C7_keywords_exact:
  assumes "terminated s" and "skip_space s = Inr s1" and "peek s1 = Some c"
    and "isalpha c \<or> c = CHR ''_''"
  shows "(let run = takeWhile (\<lambda>c. isalnum c \<or> c = CHR ''_'') (rest s1) in
            lex s = Inr (\<lparr>value = run, type = keyword_type run\<rparr>,
                         s1\<lparr>source_buf := source_buf s1 + length run\<rparr>)
            \<and> (keyword_type run = IDENT) = (run \<notin> set (map fst keyword_table)))
         \<and> map (\<lambda>x. (value (snd x), type (snd x))) (printed (parse (readfile ''if ifx IF _do do'')))
             = [(''if'', IF), (''ifx'', IDENT), (''IF'', IDENT), (''_do'', IDENT), (''do'', DO),
                ([], DOT)]"
proof -
  have t1: "terminated s1" by (rule skip_space_keeps_terminated[OF assms(1,2)])
  have "lex s = ident s1" by (rule lex_ident_case[OF assms(2,3,4)])
  then have "let run = takeWhile (\<lambda>c. isalnum c \<or> c = CHR ''_'') (rest s1) in
            lex s = Inr (\<lparr>value = run, type = keyword_type run\<rparr>,
                         s1\<lparr>source_buf := source_buf s1 + length run\<rparr>)"
    by (simp add: ident_terminated[OF t1] Let_def)
  moreover have "(keyword_type w = IDENT) = (w \<notin> set (map fst keyword_table))" for w
    by (simp add: keyword_type_def keyword_table_def)
  moreover have "map (\<lambda>x. (value (snd x), type (snd x))) (printed (parse (readfile ''if ifx IF _do do'')))
             = [(''if'', IF), (''ifx'', IDENT), (''IF'', IDENT), (''_do'', IDENT), (''do'', DO),
                ([], DOT)]"
    by code_simp
  ultimately show ?thesis by (simp add: Let_def)
qed

theorem C7_keywords_exact_witness:
  "terminated (readfile ''while1 do'')
   \<and> skip_space (readfile ''while1 do'') = Inr (readfile ''while1 do'')
   \<and> peek (readfile ''while1 do'') = Some (CHR ''w'')
   \<and> (isalpha (CHR ''w'') \<or> CHR ''w'' = CHR ''_'')
   \<and> lex (readfile ''while1 do'') =
       Inr (\<lparr>value = ''while1'', type = IDENT\<rparr>,
            \<lparr>anchor = ''while1 do'' @ [CHR 0x00], source_buf = 6, line = 1\<rparr>)"
proof -
  let ?s = "readfile ''while1 do''"
  have h1: "terminated ?s" by code_simp
  have h2: "skip_space ?s = Inr ?s" by code_simp
  have h3: "peek ?s = Some (CHR ''w'')" by code_simp
  have h4: "isalpha (CHR ''w'') \<or> CHR ''w'' = CHR ''_''" by code_simp
  have r: "takeWhile (\<lambda>c. isalnum c \<or> c = CHR ''_'') (rest ?s) = ''while1''" by code_simp
  have k: "keyword_type ''while1'' = IDENT" by code_simp
  have u: "?s\<lparr>source_buf := source_buf ?s + length ''while1''\<rparr>
           = \<lparr>anchor = ''while1 do'' @ [CHR 0x00], source_buf = 6, line = 1\<rparr>"
    by code_simp
  note C7_keywords_exact[OF h1 h2 h3 h4, unfolded Let_def r k u]
  then have "lex ?s = Inr (\<lparr>value = ''while1'', type = IDENT\<rparr>,
            \<lparr>anchor = ''while1 do'' @ [CHR 0x00], source_buf = 6, line = 1\<rparr>)"
    by blast
  with h1 h2 h3 h4 show ?thesis by blast
qed

text \<open>
  C8. In every run the line counter starts at 1, is incremented exactly once per newline
  consumed (in white space or inside a comment) and is never decremented, so the line
  numbers of successive tokens never decrease.

  \<open>consumed s s'\<close> is the stretch of bytes between the pointer before a call and the
  pointer after it. A call that returns has added the number of newlines in that stretch
  to \<open>line\<close>, and so has a call that dies (in a terminated block), so that the line
  \<^verbatim>\<open>die\<close> prints is exact; no call lowers \<open>line\<close>. The lines printed by the driver are
  sorted and at least 1, each is the value of \<open>line\<close> after the call that returned its
  token, which is 1 plus the number of newlines among the bytes stepped over until then;
  and when the driver is done or dies, \<open>line\<close> is 1 plus the number of newlines among
  the bytes it has stepped over.
\<close>

theorem C8_line_counter:
  "line (readfile content) = 1
   \<and> (\<forall>t s'. lex s = Inr (t, s') \<longrightarrow>
         line s' = line s + count_list (consumed s s') (CHR 0x0A))
   \<and> (\<forall>s' e. lex s = Inl (s', e) \<longrightarrow> line s \<le> line s')
   \<and> (\<forall>s' e. terminated s \<longrightarrow> lex s = Inl (s', e) \<longrightarrow>
         line s' = line s + count_list (consumed s s') (CHR 0x0A))
   \<and> sorted (map fst (printed (parse (readfile content))))
   \<and> (\<forall>x\<in>set (printed (parse (readfile content))). 1 \<le> fst x)
   \<and> (\<forall>x\<in>set (printed (parse (readfile content))).
         \<exists>sk sk'. lex sk = Inr (snd x, sk') \<and> fst x = line sk'
           \<and> line sk' = 1 + count_list (take (source_buf sk') (content @ [CHR 0x00])) (CHR 0x0A))
   \<and> (\<forall>s' out. parse (readfile content) = Inr (s', out) \<longrightarrow>
         line s' = 1 + count_list (take (source_buf s') (content @ [CHR 0x00])) (CHR 0x0A))
   \<and> (\<forall>s' e out. parse (readfile content) = Inl ((s', e), out) \<longrightarrow>
         line s' = 1 + count_list (take (source_buf s') (content @ [CHR 0x00])) (CHR 0x0A))"
proof -
  have 1: "line (readfile content) = 1" by (simp add: readfile_def)
  have 2: "\<forall>t s'. lex s = Inr (t, s') \<longrightarrow>
         line s' = line s + count_list (consumed s s') (CHR 0x0A)"
    using lex_scans by (auto simp: scans_def)
  have 3: "\<forall>s' e. lex s = Inl (s', e) \<longrightarrow> line s \<le> line s'"
    using lex_Inl_line by blast
  have 4: "\<forall>s' e. terminated s \<longrightarrow> lex s = Inl (s', e) \<longrightarrow>
         line s' = line s + count_list (consumed s s') (CHR 0x0A)"
    using lex_Inl_died died_at_line by blast
  from parse_loop_lines[of "\<lparr>value = [], type = IDENT\<rparr>" "readfile content" "[]"]
  obtain new where "printed (parse (readfile content)) = new" "sorted (map fst new)"
    "\<forall>x\<in>set new. line (readfile content) \<le> fst x"
    by (auto simp: parse_def)
  then have 5: "sorted (map fst (printed (parse (readfile content))))"
    and 6: "\<forall>x\<in>set (printed (parse (readfile content))). 1 \<le> fst x"
    by (simp_all add: readfile_def)
  have 7: "\<forall>x\<in>set (printed (parse (readfile content))).
         \<exists>sk sk'. lex sk = Inr (snd x, sk') \<and> fst x = line sk'
           \<and> line sk' = 1 + count_list (take (source_buf sk') (content @ [CHR 0x00])) (CHR 0x0A)"
  proof
    fix x assume x: "x \<in> set (printed (parse (readfile content)))"
    from parse_loop_printed_lines[of "\<lparr>value = [], type = IDENT\<rparr>" "readfile content" "[]"] x
    obtain sk sk' where sk: "scans (readfile content) sk" "lex sk = Inr (snd x, sk')"
      "fst x = line sk'"
      by (auto simp: parse_def)
    from lex_scans[OF sk(2)] sk(1) have "scans (readfile content) sk'"
      by (blast intro: scans_trans)
    then have "line sk' = 1 + count_list (take (source_buf sk') (content @ [CHR 0x00])) (CHR 0x0A)"
      by (simp add: scans_def consumed_readfile) (simp add: readfile_def)
    with sk(2,3) show "\<exists>sk sk'. lex sk = Inr (snd x, sk') \<and> fst x = line sk'
           \<and> line sk' = 1 + count_list (take (source_buf sk') (content @ [CHR 0x00])) (CHR 0x0A)"
      by blast
  qed
  have 8: "\<forall>s' out. parse (readfile content) = Inr (s', out) \<longrightarrow>
         line s' = 1 + count_list (take (source_buf s') (content @ [CHR 0x00])) (CHR 0x0A)"
  proof (intro allI impI)
    fix s' out
    assume "parse (readfile content) = Inr (s', out)"
    from parse_scans[OF this] show
      "line s' = 1 + count_list (take (source_buf s') (content @ [CHR 0x00])) (CHR 0x0A)"
      by (simp add: scans_def consumed_readfile) (simp add: readfile_def)
  qed
  have 9: "\<forall>s' e out. parse (readfile content) = Inl ((s', e), out) \<longrightarrow>
         line s' = 1 + count_list (take (source_buf s') (content @ [CHR 0x00])) (CHR 0x0A)"
  proof (intro allI impI)
    fix s' e out
    assume "parse (readfile content) = Inl ((s', e), out)"
    then have "parse_loop \<lparr>value = [], type = IDENT\<rparr> (readfile content) [] = Inl ((s', e), out)"
      by (simp add: parse_def)
    from parse_loop_died_at[OF terminated_readfile _ this] have "died_at (readfile content) s' e"
      by simp
    from died_at_line[OF this] show
      "line s' = 1 + count_list (take (source_buf s') (content @ [CHR 0x00])) (CHR 0x0A)"
      by (simp add: consumed_readfile) (simp add: readfile_def)
  qed
  from 1 2 3 4 5 6 7 8 9 show ?thesis by blast
qed

theorem C8_line_counter_witness:
  "lex \<lparr>anchor = [CHR ''a'', CHR 0x0A, CHR ''{'', CHR 0x0A, CHR ''}'', CHR ''b'', CHR 0x00],
        source_buf = 1, line = 1\<rparr> =
     Inr (\<lparr>value = ''b'', type = IDENT\<rparr>,
          \<lparr>anchor = [CHR ''a'', CHR 0x0A, CHR ''{'', CHR 0x0A, CHR ''}'', CHR ''b'', CHR 0x00],
           source_buf = 6, line = 3\<rparr>)
   \<and> count_list (consumed
         \<lparr>anchor = [CHR ''a'', CHR 0x0A, CHR ''{'', CHR 0x0A, CHR ''}'', CHR ''b'', CHR 0x00],
          source_buf = 1, line = 1\<rparr>
         \<lparr>anchor = [CHR ''a'', CHR 0x0A, CHR ''{'', CHR 0x0A, CHR ''}'', CHR ''b'', CHR 0x00],
          source_buf = 6, line = 3\<rparr>) (CHR 0x0A) = 2
   \<and> map fst (printed (parse (readfile [CHR ''a'', CHR 0x0A, CHR ''{'', CHR 0x0A, CHR ''}'',
         CHR ''b'']))) = [1, 3, 3]
   \<and> sorted (map fst (printed (parse (readfile [CHR ''a'', CHR 0x0A, CHR ''{'', CHR 0x0A,
         CHR ''}'', CHR ''b'']))))
   \<and> terminated (readfile [CHR 0x0A, CHR ''{'', CHR 0x0A, CHR ''}'', CHR ''?''])
   \<and> lex (readfile [CHR 0x0A, CHR ''{'', CHR 0x0A, CHR ''}'', CHR ''?'']) =
       Inl (\<lparr>anchor = [CHR 0x0A, CHR ''{'', CHR 0x0A, CHR ''}'', CHR ''?'', CHR 0x00],
             source_buf = 4, line = 3\<rparr>, Unknown_token (CHR ''?''))
   \<and> count_list (consumed (readfile [CHR 0x0A, CHR ''{'', CHR 0x0A, CHR ''}'', CHR ''?''])
         \<lparr>anchor = [CHR 0x0A, CHR ''{'', CHR 0x0A, CHR ''}'', CHR ''?'', CHR 0x00],
          source_buf = 4, line = 3\<rparr>) (CHR 0x0A) = 2
   \<and> parse (readfile [CHR ''a'', CHR 0x0A, CHR ''{'', CHR 0x0A]) =
       Inl ((\<lparr>anchor = [CHR ''a'', CHR 0x0A, CHR ''{'', CHR 0x0A, CHR 0x00],
              source_buf = 5, line = 3\<rparr>, Unterminated_comment),
            [(1, \<lparr>value = ''a'', type = IDENT\<rparr>)])
   \<and> count_list (take 5 ([CHR ''a'', CHR 0x0A, CHR ''{'', CHR 0x0A] @ [CHR 0x00])) (CHR 0x0A) = 2"
proof -
  let ?c = "[CHR ''a'', CHR 0x0A, CHR ''{'', CHR 0x0A, CHR ''}'', CHR ''b'']"
  let ?s = "\<lparr>anchor = [CHR ''a'', CHR 0x0A, CHR ''{'', CHR 0x0A, CHR ''}'', CHR ''b'', CHR 0x00],
             source_buf = 1, line = 1\<rparr>"
  let ?s' = "\<lparr>anchor = [CHR ''a'', CHR 0x0A, CHR ''{'', CHR 0x0A, CHR ''}'', CHR ''b'', CHR 0x00],
             source_buf = 6, line = 3\<rparr>"
  let ?d = "readfile [CHR 0x0A, CHR ''{'', CHR 0x0A, CHR ''}'', CHR ''?'']"
  let ?d' = "\<lparr>anchor = [CHR 0x0A, CHR ''{'', CHR 0x0A, CHR ''}'', CHR ''?'', CHR 0x00],
             source_buf = 4, line = 3\<rparr>"
  let ?u = "[CHR ''a'', CHR 0x0A, CHR ''{'', CHR 0x0A]"
  let ?u' = "\<lparr>anchor = [CHR ''a'', CHR 0x0A, CHR ''{'', CHR 0x0A, CHR 0x00],
              source_buf = 5, line = 3\<rparr>"
  have l: "lex ?s = Inr (\<lparr>value = ''b'', type = IDENT\<rparr>, ?s')" by code_simp
  from C8_line_counter[of ?c ?s] l
  have "line ?s' = line ?s + count_list (consumed ?s ?s') (CHR 0x0A)" by blast
  then have c: "count_list (consumed ?s ?s') (CHR 0x0A) = 2" by simp
  have m: "map fst (printed (parse (readfile ?c))) = [1, 3, 3]" by code_simp
  from C8_line_counter[of ?c ?s] have so: "sorted (map fst (printed (parse (readfile ?c))))"
    by blast
  have td: "terminated ?d" by code_simp
  have ld: "lex ?d = Inl (?d', Unknown_token (CHR ''?''))" by code_simp
  from C8_line_counter[of ?c ?d] td ld
  have "line ?d' = line ?d + count_list (consumed ?d ?d') (CHR 0x0A)" by blast
  then have cd: "count_list (consumed ?d ?d') (CHR 0x0A) = 2" by (simp add: readfile_def)
  have pu: "parse (readfile ?u) = Inl ((?u', Unterminated_comment), [(1, \<lparr>value = ''a'', type = IDENT\<rparr>)])"
    by code_simp
  from C8_line_counter[of ?u ?s] pu
  have "line ?u' = 1 + count_list (take (source_buf ?u') (?u @ [CHR 0x00])) (CHR 0x0A)" by blast
  then have cu: "count_list (take 5 (?u @ [CHR 0x00])) (CHR 0x0A) = 2" by simp
  from l c m so td ld cd pu cu show ?thesis by blast
qed

text \<open>
  C9. Every call to the scanner leaves the cursor greater than or equal to where it was,
  never advances the cursor past the terminating null, and never writes to the source
  buffer.

  As stated this fails on the fatal path of \<open>comment\<close>: the loop reads the terminating
  NUL with \<^verbatim>\<open>*source_buf++\<close> and only then calls \<^verbatim>\<open>die\<close>, so the process exits with the
  pointer one byte behind the NUL (it is not read there). What holds, for every call
  from a state with a NUL at or after the pointer: no byte outside the block is read;
  the block is unchanged and the pointer has not moved back, whether the call returns
  or dies; a call that returns, or dies with anything but "Unterminated comment", has
  stepped over no NUL; a call that dies with "Unterminated comment" has stepped over
  exactly one NUL, the last byte it consumed. The driver therefore never reads outside
  the block, and ends with the pointer inside the block that \<^verbatim>\<open>readfile\<close> allocated.
\<close>

theorem C9_cursor_and_buffer:
  assumes "terminated s"
  shows "(\<forall>s'. lex s \<noteq> Inl (s', Out_of_bounds))
       \<and> (\<forall>t s'. lex s = Inr (t, s') \<longrightarrow>
             anchor s' = anchor s \<and> source_buf s \<le> source_buf s'
             \<and> CHR 0x00 \<notin> set (consumed s s') \<and> terminated s')
       \<and> (\<forall>s' e. lex s = Inl (s', e) \<longrightarrow>
             anchor s' = anchor s \<and> source_buf s \<le> source_buf s'
             \<and> source_buf s' \<le> length (anchor s)
             \<and> (if e = Unterminated_comment
                 then \<exists>pre. consumed s s' = pre @ [CHR 0x00] \<and> CHR 0x00 \<notin> set pre
                 else CHR 0x00 \<notin> set (consumed s s')))
       \<and> (\<forall>s' out. parse (readfile content) \<noteq> Inl ((s', Out_of_bounds), out))
       \<and> (\<forall>s' out. parse (readfile content) = Inr (s', out) \<longrightarrow>
             anchor s' = content @ [CHR 0x00] \<and> source_buf s' \<le> length content)"
proof -
  have "\<forall>s'. lex s \<noteq> Inl (s', Out_of_bounds)"
    using lex_safe[OF assms] by blast
  moreover have "\<forall>t s'. lex s = Inr (t, s') \<longrightarrow>
             anchor s' = anchor s \<and> source_buf s \<le> source_buf s'
             \<and> CHR 0x00 \<notin> set (consumed s s') \<and> terminated s'"
  proof (intro allI impI)
    fix t s'
    assume "lex s = Inr (t, s')"
    from lex_scans[OF this] have sc: "scans s s'" by simp
    from scans_terminated[OF sc assms] sc
    show "anchor s' = anchor s \<and> source_buf s \<le> source_buf s'
             \<and> CHR 0x00 \<notin> set (consumed s s') \<and> terminated s'"
      by (simp add: scans_def)
  qed
  moreover have "\<forall>s' e. lex s = Inl (s', e) \<longrightarrow>
             anchor s' = anchor s \<and> source_buf s \<le> source_buf s'
             \<and> source_buf s' \<le> length (anchor s)
             \<and> (if e = Unterminated_comment
                 then \<exists>pre. consumed s s' = pre @ [CHR 0x00] \<and> CHR 0x00 \<notin> set pre
                 else CHR 0x00 \<notin> set (consumed s s'))"
  proof (intro allI impI)
    fix s' e
    assume "lex s = Inl (s', e)"
    from lex_Inl_died[OF assms this] have d: "died_at s s' e" .
    from died_at_frame[OF d]
    show "anchor s' = anchor s \<and> source_buf s \<le> source_buf s'
             \<and> source_buf s' \<le> length (anchor s)
             \<and> (if e = Unterminated_comment
                 then \<exists>pre. consumed s s' = pre @ [CHR 0x00] \<and> CHR 0x00 \<notin> set pre
                 else CHR 0x00 \<notin> set (consumed s s'))"
      by simp
  qed
  moreover have "\<forall>s' out. parse (readfile content) \<noteq> Inl ((s', Out_of_bounds), out)"
    using parse_loop_safe[OF terminated_readfile] by (simp add: parse_def)
  moreover have "\<forall>s' out. parse (readfile content) = Inr (s', out) \<longrightarrow>
             anchor s' = content @ [CHR 0x00] \<and> source_buf s' \<le> length content"
  proof (intro allI impI)
    fix s' out
    assume "parse (readfile content) = Inr (s', out)"
    from parse_scans[OF this] have sc: "scans (readfile content) s'" .
    from scans_terminated[OF sc terminated_readfile] have "terminated s'" .
    from terminated_peek[OF this] obtain c where "peek s' = Some c" by blast
    from peek_in_range[OF this] sc
    show "anchor s' = content @ [CHR 0x00] \<and> source_buf s' \<le> length content"
      by (simp add: scans_def readfile_def)
  qed
  ultimately show ?thesis by blast
qed

theorem C9_cursor_and_buffer_witness:
  "terminated (readfile ''x {c} y'')
   \<and> lex \<lparr>anchor = ''x {c} y'' @ [CHR 0x00], source_buf = 1, line = 1\<rparr> =
       Inr (\<lparr>value = ''y'', type = IDENT\<rparr>,
            \<lparr>anchor = ''x {c} y'' @ [CHR 0x00], source_buf = 7, line = 1\<rparr>)
   \<and> terminated \<lparr>anchor = ''x {c} y'' @ [CHR 0x00], source_buf = 1, line = 1\<rparr>
   \<and> terminated \<lparr>anchor = ''x {c} y'' @ [CHR 0x00], source_buf = 7, line = 1\<rparr>
   \<and> CHR 0x00 \<notin> set (consumed \<lparr>anchor = ''x {c} y'' @ [CHR 0x00], source_buf = 1, line = 1\<rparr>
                             \<lparr>anchor = ''x {c} y'' @ [CHR 0x00], source_buf = 7, line = 1\<rparr>)"
proof -
  let ?s = "\<lparr>anchor = ''x {c} y'' @ [CHR 0x00], source_buf = 1, line = 1\<rparr>"
  let ?s' = "\<lparr>anchor = ''x {c} y'' @ [CHR 0x00], source_buf = 7, line = 1\<rparr>"
  have h0: "terminated (readfile ''x {c} y'')" by code_simp
  have h: "terminated ?s" by code_simp
  have l: "lex ?s = Inr (\<lparr>value = ''y'', type = IDENT\<rparr>, ?s')" by code_simp
  from C9_cursor_and_buffer[OF h, of "''x {c} y''"] l
  have "terminated ?s'" "CHR 0x00 \<notin> set (consumed ?s ?s')" by blast+
  with h0 h l show ?thesis by blast
qed

theorem C9_pointer_behind_NUL_counterexample:
  "lex (readfile ''{'') =
     Inl (\<lparr>anchor = [CHR ''{'', CHR 0x00], source_buf = 2, line = 1\<rparr>, Unterminated_comment)
   \<and> [CHR ''{'', CHR 0x00] ! 1 = CHR 0x00
   \<and> source_buf (readfile ''{'') = 0
   \<and> consumed (readfile ''{'') \<lparr>anchor = [CHR ''{'', CHR 0x00], source_buf = 2, line = 1\<rparr>
       = [CHR ''{'', CHR 0x00]"
  by code_simp

text \<open>
  C10. When the source has a \<^verbatim>\<open>.\<close> outside any comment, the driver loop stops after the
  first Dot-kind token: the source after that \<^verbatim>\<open>.\<close> is never scanned and no token for it
  is printed, also when the \<^verbatim>\<open>.\<close> is not at the end of the input.

  The driver does stop there (\<open>driver_stops_behind_first_dot\<close>), but the byte directly
  behind the \<^verbatim>\<open>.\<close> is scanned and printed: \<^verbatim>\<open>case '.'\<close> steps the pointer over the dot
  before \<^verbatim>\<open>value[0] = *source_buf\<close> reads at it, so the text of the Dot token is the
  byte behind the dot (the defect of C1). The sources \<^verbatim>\<open>a.b\<close> and \<^verbatim>\<open>a.c\<close> differ only
  behind the dot, and the driver prints \<^verbatim>\<open>b\<close> for the one and \<^verbatim>\<open>c\<close> for the other.
\<close>

theorem C10_byte_behind_dot_is_printed:
  "parse (readfile ''a.b'') =
     Inr (\<lparr>anchor = ''a.b'' @ [CHR 0x00], source_buf = 2, line = 1\<rparr>,
          [(1, \<lparr>value = ''a'', type = IDENT\<rparr>), (1, \<lparr>value = ''b'', type = DOT\<rparr>)])
   \<and> parse (readfile ''a.c'') =
     Inr (\<lparr>anchor = ''a.c'' @ [CHR 0x00], source_buf = 2, line = 1\<rparr>,
          [(1, \<lparr>value = ''a'', type = IDENT\<rparr>), (1, \<lparr>value = ''c'', type = DOT\<rparr>)])
   \<and> printed (parse (readfile ''a.b'')) \<noteq> printed (parse (readfile ''a.c''))"
  by code_simp

end
